theory Spec2Isabelle
  imports Complex_Main
begin

section \<open>Strings, numbers and identifiers\<close>

text \<open>
  JavaScript strings are modelled as \<open>string\<close>; the empty string is the only falsy one.
  The white space of \<open>\s\<close> and of \<open>String.prototype.trim\<close> is the part of it that a
  \<open>char\<close> can hold: TAB, LF, VT, FF, CR, SPACE and NBSP.
\<close>

definition is_space :: "char \<Rightarrow> bool" where
  "is_space c \<longleftrightarrow>
     c \<in> {CHR 0x09, CHR 0x0A, CHR 0x0B, CHR 0x0C, CHR 0x0D, CHR 0x20, CHR 0xA0}"

definition truthy :: "string \<Rightarrow> bool" where
  "truthy t \<longleftrightarrow> t \<noteq> []"

text \<open>\<open>s.trim()\<close>: strips white space at both ends.\<close>

definition js_trim :: "string \<Rightarrow> string" where
  "js_trim t = rev (dropWhile is_space (rev (dropWhile is_space t)))"

text \<open>\<open>s.replace(/\s+/g, " ")\<close>: every maximal run of white space becomes one space.\<close>

function collapse_ws :: "string \<Rightarrow> string" where
  "collapse_ws [] = []"
| "collapse_ws (c # cs) =
     (if is_space c then CHR 0x20 # collapse_ws (dropWhile is_space cs)
      else c # collapse_ws cs)"
  by pat_completeness auto
termination
  by (relation "measure length") (auto simp: length_dropWhile_le less_Suc_eq_le)

text \<open>\<open>const trim = (s) => (s || "").replace(/\s+/g, " ").trim()\<close>\<close>

definition trim :: "string \<Rightarrow> string" where
  "trim t = js_trim (collapse_ws t)"

text \<open>\<open>const titleOf = (s) => (trim(s).slice(0, 64) || "Untitled")\<close>\<close>

definition titleOf :: "string \<Rightarrow> string" where
  "titleOf t = (if truthy (take 64 (trim t)) then take 64 (trim t) else ''Untitled'')"

text \<open>Decimal rendering of a number inside a template literal.\<close>

definition digit_char :: "nat \<Rightarrow> char" where
  "digit_char d = ''0123456789'' ! d"

function dec :: "nat \<Rightarrow> string" where
  "dec n = (if n < 10 then [digit_char n] else dec (n div 10) @ [digit_char (n mod 10)])"
  by pat_completeness auto
termination
  by (relation "measure id") auto

declare dec.simps [simp del]

text \<open>
  \<open>const uid = () => `m_${Date.now()}_${uidCounter++}`\<close>: the reading of the clock is an
  input, the counter is state; the result is the identifier and the counter after it.
\<close>

definition uid :: "nat \<Rightarrow> nat \<Rightarrow> string \<times> nat" where
  "uid dnow counter = (''m_'' @ dec dnow @ ''_'' @ dec counter, Suc counter)"

text \<open>
  A number is the real value of the double that holds it; NaN and the infinities are
  left out (JSON cannot carry them). Comparisons, \<open>Math.max\<close>, \<open>Math.min\<close> and
  \<open>toFixed\<close> are exact on doubles; the arithmetic of the step threshold is rounded as
  binary64 rounds it, see below. \<open>x || 0\<close> on a number replaces the falsy 0 by 0.
\<close>

definition or_zero :: "real \<Rightarrow> real" where
  "or_zero x = (if x = 0 then 0 else x)"

text \<open>\<open>x.toFixed(0)\<close>: the nearest integer, a tie going away from zero.\<close>

definition toFixed0 :: "real \<Rightarrow> int" where
  "toFixed0 x = (if x < 0 then - \<lfloor>- x + 1 / 2\<rfloor> else \<lfloor>x + 1 / 2\<rfloor>)"

section \<open>Data model\<close>

datatype role = User | Assistant

record message =
  mid :: string
  role :: role
  content :: string
  citations :: "string list option"

datatype mode = Fast | Thorough

datatype ev_type =
  TPlan | TStatus | TQueries | TSearch | TRead | TExtract | TRationale | TError

text \<open>
  The payload of a trace event: the parsed \<open>plan\<close> object, a \<open>{state}\<close> object, a
  \<open>{message}\<close> object, or the JSON of an event that is only recorded.
\<close>

datatype ev_data =
  PlanData "string option" "string list option"
| StateData "string option"
| MessageData string
| JsonData string

record trace_event =
  ev_type :: ev_type
  ev_data :: ev_data

record session =
  sid :: string
  title :: string
  s_mode :: mode
  messages :: "message list"
  trace :: "trace_event list option"
  createdAt :: nat

datatype status = Idle | Thinking | Done | Error | Stopped

record plan =
  intent :: "string option"
  steps :: "string list"

section \<open>Binary64 arithmetic\<close>

text \<open>
  The arithmetic operators of the source work on IEEE 754 binary64 numbers and round
  every result to the nearest double, a tie going to the even significand. A finite
  double is kept as a pair \<open>(m, e)\<close> of integers with the value \<open>m * 2 ^ e\<close>. Overflow and
  subnormal numbers are not modelled: the operands here are array lengths, indices and
  the constants 100 and 1, whose results stay far from both.
\<close>

function bitlen :: "nat \<Rightarrow> nat" where
  "bitlen n = (if n = 0 then 0 else Suc (bitlen (n div 2)))"
  by pat_completeness auto
termination
  by (relation "measure id") auto

declare bitlen.simps [simp del]

type_synonym dbl = "int \<times> int"

definition val :: "dbl \<Rightarrow> real" where
  "val d = of_int (fst d) * 2 powi (snd d)"

text \<open>
  The double nearest to \<open>p / q\<close>, for positive \<open>p\<close> and \<open>q\<close>: the quotient is scaled to 54
  or 55 bits, \<open>sticky\<close> records a remainder, and the bits below the 53rd decide the
  rounding, an exact half going to the even neighbour.
\<close>

definition round_pos :: "nat \<Rightarrow> nat \<Rightarrow> dbl" where
  "round_pos p q =
     (let k = int (bitlen q) - int (bitlen p) + 54;
          num = (if k \<ge> 0 then p * 2 ^ nat k else p);
          den = (if k \<ge> 0 then q else q * 2 ^ nat (- k));
          a = num div den;
          sticky = (num mod den \<noteq> 0);
          s = bitlen a - 53;
          m0 = a div 2 ^ s;
          rem = a mod 2 ^ s;
          half = 2 ^ (s - 1);
          up = (rem > half \<or> (rem = half \<and> (sticky \<or> odd m0)))
      in (int (if up then m0 + 1 else m0), int s - k))"

text \<open>The double nearest to the rational \<open>n / d\<close>, of either sign.\<close>

definition round_rat :: "int \<Rightarrow> nat \<Rightarrow> dbl" where
  "round_rat n d =
     (if n = 0 then (0, 0)
      else if n > 0 then round_pos (nat n) d
      else (- fst (round_pos (nat (- n)) d), snd (round_pos (nat (- n)) d)))"

text \<open>A double as a fraction, and a non-negative integer below \<open>2 ^ 53\<close> as a double.\<close>

definition num_of :: "dbl \<Rightarrow> int" where
  "num_of d = (if snd d \<ge> 0 then fst d * 2 ^ nat (snd d) else fst d)"

definition den_of :: "dbl \<Rightarrow> nat" where
  "den_of d = (if snd d \<ge> 0 then 1 else 2 ^ nat (- snd d))"

definition dbl_of_nat :: "nat \<Rightarrow> dbl" where
  "dbl_of_nat n = (int n, 0)"

text \<open>
  \<open>x / y\<close> (for positive \<open>y\<close>), \<open>x * y\<close> and \<open>x - y\<close>: the exact result, rounded.
\<close>

definition fl_div :: "dbl \<Rightarrow> dbl \<Rightarrow> dbl" where
  "fl_div x y = round_rat (num_of x * int (den_of y)) (den_of x * nat (num_of y))"

definition fl_mul :: "dbl \<Rightarrow> dbl \<Rightarrow> dbl" where
  "fl_mul x y = round_rat (num_of x * num_of y) (den_of x * den_of y)"

definition fl_sub :: "dbl \<Rightarrow> dbl \<Rightarrow> dbl" where
  "fl_sub x y =
     round_rat (num_of x * int (den_of y) - num_of y * int (den_of x)) (den_of x * den_of y)"

text \<open>\<open>((i + 1) / plan.steps.length) * 100 - 1\<close>, as the source computes it.\<close>

definition step_threshold :: "nat \<Rightarrow> nat \<Rightarrow> dbl" where
  "step_threshold n i =
     fl_sub (fl_mul (fl_div (dbl_of_nat (i + 1)) (dbl_of_nat n)) (dbl_of_nat 100)) (dbl_of_nat 1)"

section \<open>The loader: displayed percentage and step completion\<close>

text \<open>\<open>Math.max(0, Math.min(100, progress || 0)).toFixed(0)\<close>\<close>

definition displayed_pct :: "real \<Rightarrow> int" where
  "displayed_pct progress = toFixed0 (max 0 (min 100 (or_zero progress)))"

text \<open>
  \<open>const stepPct = ((i + 1) / plan.steps.length) * 100;
   const done = (progress || 0) >= stepPct - 1;\<close>
\<close>

definition step_done :: "nat \<Rightarrow> nat \<Rightarrow> real \<Rightarrow> bool" where
  "step_done n i progress \<longleftrightarrow> or_zero progress \<ge> val (step_threshold n i)"

text \<open>
  The list rendered under \<open>plan?.steps?.length > 0\<close>: one row per step, with its flag.
\<close>

definition step_rows :: "plan \<Rightarrow> real \<Rightarrow> (bool \<times> string) list" where
  "step_rows p progress =
     (if length (steps p) > 0
      then map (\<lambda>(i, t). (step_done (length (steps p)) i progress, t))
             (zip [0 ..< length (steps p)] (steps p))
      else [])"

record loader_view =
  lv_percent :: int
  lv_rows :: "(bool \<times> string) list"

definition ClaudeLoader :: "plan \<Rightarrow> real \<Rightarrow> loader_view" where
  "ClaudeLoader p progress =
     \<lparr>lv_percent = displayed_pct progress, lv_rows = step_rows p progress\<rparr>"

section \<open>Application state\<close>

text \<open>The record \<open>{original, corrected}\<close> shown by the pill after a correction was applied.\<close>

record correction =
  original :: string
  corrected :: string

text \<open>
  The objects the component creates in the browser are kept in explicit stores, a handle
  being the index of the object in its store:
  \<^item> an \<open>EventSource\<close>, with the session id its listeners captured, its query
    parameters and whether it is still open;
  \<^item> an interval timer, as the flag whether it still ticks;
  \<^item> a debounce timeout, with the text its callback captured and its due time;
  \<^item> an autocorrect request, with the text it was issued for;
  \<^item> the pending cosmetic time-outs that reset the progress after a final event.
\<close>

record stream =
  st_owner :: string
  st_question :: string
  st_mode :: mode
  st_open :: bool

record debounce =
  db_text :: string
  db_due :: nat
  db_pending :: bool

record request =
  rq_text :: string
  rq_inflight :: bool

record app =
  sessions :: "session list"
  currentId :: "string option"
  mode :: mode
  question :: string
  status :: status
  elapsed :: real
  plan :: plan
  progress :: real
  statusLine :: string
  autoCorrectOn :: bool
  suggestion :: string
  suggestLoading :: bool
  ac :: "correction option"
  suggestTimerRef :: "nat option"
  esRef :: "nat option"
  runIdRef :: "string option"
  timerRef :: "nat option"
  t0Ref :: real
  uidCounter :: nat
  streams :: "stream list"
  intervals :: "bool list"
  timeouts :: "debounce list"
  requests :: "request list"
  resets :: nat

text \<open>\<open>x?.id || null\<close>\<close>

definition id_or_null :: "session option \<Rightarrow> string option" where
  "id_or_null x =
     (case x of None \<Rightarrow> None | Some y \<Rightarrow> if truthy (sid y) then Some (sid y) else None)"

text \<open>\<open>sessions.find(s => s.id === currentId) || null\<close>\<close>

definition current :: "app \<Rightarrow> session option" where
  "current s =
     (case currentId s of None \<Rightarrow> None | Some i \<Rightarrow> find (\<lambda>x. sid x = i) (sessions s))"

text \<open>The initial values of the state hooks and refs, for the loaded session list.\<close>

definition init :: "session list \<Rightarrow> app" where
  "init loaded =
     \<lparr>sessions = loaded,
      currentId = id_or_null (case loaded of [] \<Rightarrow> None | x # _ \<Rightarrow> Some x),
      mode = (case (case id_or_null (case loaded of [] \<Rightarrow> None | x # _ \<Rightarrow> Some x) of
                      None \<Rightarrow> None | Some i \<Rightarrow> find (\<lambda>x. sid x = i) loaded) of
                None \<Rightarrow> Thorough | Some x \<Rightarrow> s_mode x),
      question = [], status = Idle, elapsed = 0,
      plan = \<lparr>intent = None, steps = []\<rparr>, progress = 0, statusLine = [],
      autoCorrectOn = True, suggestion = [], suggestLoading = False, ac = None,
      suggestTimerRef = None, esRef = None, runIdRef = None, timerRef = None, t0Ref = 0,
      uidCounter = 0, streams = [], intervals = [], timeouts = [], requests = [],
      resets = 0\<rparr>"

section \<open>Timers and sessions\<close>

text \<open>
  \<open>startTimer\<close>: records the start, clears the interval held by \<open>timerRef\<close>, sets a new
  one. \<open>stopTimer\<close> clears the interval and leaves the ref as it is.
\<close>

definition startTimer :: "real \<Rightarrow> app \<Rightarrow> app" where
  "startTimer pnow s =
     (let s1 = s\<lparr>t0Ref := pnow\<rparr>;
          s2 = (case timerRef s1 of None \<Rightarrow> s1
                | Some t \<Rightarrow> s1\<lparr>intervals := (intervals s1)[t := False]\<rparr>)
      in s2\<lparr>intervals := intervals s2 @ [True], timerRef := Some (length (intervals s2))\<rparr>)"

definition stopTimer :: "app \<Rightarrow> app" where
  "stopTimer s =
     (case timerRef s of None \<Rightarrow> s
      | Some t \<Rightarrow> s\<lparr>intervals := (intervals s)[t := False]\<rparr>)"

text \<open>The interval callback: \<open>setElapsed((performance.now() - t0Ref.current) / 1000)\<close>.\<close>

definition tick :: "nat \<Rightarrow> real \<Rightarrow> app \<Rightarrow> app" where
  "tick t pnow s =
     (if t < length (intervals s) \<and> intervals s ! t
      then s\<lparr>elapsed := (pnow - t0Ref s) / 1000\<rparr> else s)"

text \<open>\<open>es.close()\<close> on the stream with handle \<open>h\<close>.\<close>

definition close_stream :: "nat \<Rightarrow> stream list \<Rightarrow> stream list" where
  "close_stream h xs = (if h < length xs then xs[h := (xs ! h)\<lparr>st_open := False\<rparr>] else xs)"

text \<open>\<open>if (esRef.current) { esRef.current.close(); esRef.current = null; }\<close>\<close>

definition close_es :: "app \<Rightarrow> app" where
  "close_es s =
     (case esRef s of None \<Rightarrow> s
      | Some h \<Rightarrow> s\<lparr>streams := close_stream h (streams s), esRef := None\<rparr>)"

definition ensureSession :: "nat \<Rightarrow> string \<Rightarrow> app \<Rightarrow> string \<times> app" where
  "ensureSession dnow prompt s =
     (case current s of
        Some x \<Rightarrow> (sid x, s)
      | None \<Rightarrow>
          (let (i, c) = uid dnow (uidCounter s);
               x = \<lparr>sid = i,
                    title = titleOf (if truthy prompt then prompt else ''New chat''),
                    s_mode = mode s, messages = [], trace = Some [], createdAt = dnow\<rparr>
           in (i, s\<lparr>uidCounter := c, sessions := x # sessions s, currentId := Some i\<rparr>)))"

definition newChat :: "app \<Rightarrow> app" where
  "newChat s = s\<lparr>currentId := None, status := Idle, elapsed := 0, question := []\<rparr>"

definition deleteSession :: "string \<Rightarrow> app \<Rightarrow> app" where
  "deleteSession i s =
     s\<lparr>sessions := filter (\<lambda>x. sid x \<noteq> i) (sessions s),
       currentId := (if currentId s = Some i
                     then id_or_null (find (\<lambda>x. sid x \<noteq> i) (sessions s))
                     else currentId s)\<rparr>"

definition renameSession :: "string \<Rightarrow> string \<Rightarrow> app \<Rightarrow> app" where
  "renameSession i name s =
     s\<lparr>sessions := map (\<lambda>x. if sid x = i then x\<lparr>title := titleOf name\<rparr> else x) (sessions s)\<rparr>"

definition appendTrace :: "string \<Rightarrow> trace_event \<Rightarrow> app \<Rightarrow> app" where
  "appendTrace i ev s =
     s\<lparr>sessions :=
         map (\<lambda>x. if sid x = i
                  then x\<lparr>trace := Some ((case trace x of None \<Rightarrow> [] | Some t \<Rightarrow> t) @ [ev])\<rparr>
                  else x)
           (sessions s)\<rparr>"

text \<open>
  \<open>setMode(m)\<close> followed by the effect on \<open>[mode]\<close>, which runs when the mode changed:
  \<open>if (!currentId) return; setSessions(prev => prev.map(s => s.id === currentId ? {...s, mode} : s))\<close>.
\<close>

definition setMode :: "mode \<Rightarrow> app \<Rightarrow> app" where
  "setMode m s =
     (if m = mode s then s
      else (case currentId s of
              None \<Rightarrow> s\<lparr>mode := m\<rparr>
            | Some i \<Rightarrow>
                if truthy i
                then s\<lparr>mode := m,
                       sessions := map (\<lambda>x. if sid x = i then x\<lparr>s_mode := m\<rparr> else x) (sessions s)\<rparr>
                else s\<lparr>mode := m\<rparr>))"

text \<open>
  An updater \<open>prev.map(s => s.id === id ? {... {id: uid(), ...} ...} : s)\<close>: every session
  with the id draws its own \<open>uid()\<close> when the updater runs.
\<close>

fun map_with_uid ::
  "nat \<Rightarrow> (string \<Rightarrow> session \<Rightarrow> session) \<Rightarrow> string \<Rightarrow> nat \<Rightarrow> session list \<Rightarrow> session list \<times> nat"
where
  "map_with_uid dnow f i c [] = ([], c)"
| "map_with_uid dnow f i c (x # xs) =
     (if sid x = i
      then (let (m, c1) = uid dnow c; (ys, c2) = map_with_uid dnow f i c1 xs
            in (f m x # ys, c2))
      else (let (ys, c2) = map_with_uid dnow f i c xs in (x # ys, c2)))"

section \<open>Stopping a run\<close>

definition stopRun :: "app \<Rightarrow> app" where
  "stopRun s =
     (let s1 = close_es s;
          s2 = stopTimer s1;
          s3 = s2\<lparr>status := Stopped\<rparr>
      in case runIdRef s3 of
           None \<Rightarrow> s3
         | Some i \<Rightarrow>
             if truthy i
             then appendTrace i
                    \<lparr>ev_type = TStatus, ev_data = StateData (Some ''Stopped by user'')\<rparr> s3
             else s3)"

text \<open>
  The two places that call \<open>stopRun\<close>: the key listener
  \<open>if (e.key === "Escape" && status === "thinking") stopRun()\<close>, and the Stop button, which
  is rendered under \<open>status === "thinking"\<close> only.
\<close>

definition onKey :: "string \<Rightarrow> app \<Rightarrow> app" where
  "onKey key s = (if key = ''Escape'' \<and> status s = Thinking then stopRun s else s)"

definition clickStop :: "app \<Rightarrow> app" where
  "clickStop s = (if status s = Thinking then stopRun s else s)"

section \<open>Autocorrect\<close>

text \<open>
  \<open>requestAutocorrect(text)\<close> at time \<open>now\<close>: with autocorrect off it clears the suggestion
  and returns; otherwise it clears the timeout held by \<open>suggestTimerRef\<close> and sets one that
  is due 300ms later.
\<close>

definition requestAutocorrect :: "nat \<Rightarrow> string \<Rightarrow> app \<Rightarrow> app" where
  "requestAutocorrect now text s =
     (if \<not> autoCorrectOn s then s\<lparr>suggestion := []\<rparr>
      else (let s1 = (case suggestTimerRef s of None \<Rightarrow> s
                      | Some h \<Rightarrow>
                          s\<lparr>timeouts := (if h < length (timeouts s)
                                          then (timeouts s)[h := (timeouts s ! h)\<lparr>db_pending := False\<rparr>]
                                          else timeouts s)\<rparr>)
            in s1\<lparr>timeouts := timeouts s1 @ [\<lparr>db_text = text, db_due = now + 300, db_pending = True\<rparr>],
                  suggestTimerRef := Some (length (timeouts s1))\<rparr>))"

text \<open>
  The textarea's \<open>onChange\<close>:
  \<open>setQuestion(v); if (trim(v).length >= 3) requestAutocorrect(trim(v)); else setSuggestion("")\<close>.
\<close>

definition onChange :: "nat \<Rightarrow> string \<Rightarrow> app \<Rightarrow> app" where
  "onChange now v s =
     (let s1 = s\<lparr>question := v\<rparr>
      in if length (trim v) \<ge> 3 then requestAutocorrect now (trim v) s1
         else s1\<lparr>suggestion := []\<rparr>)"

text \<open>
  The timeout callback, up to its \<open>await fetch\<close>: it sets the loading flag and issues the
  request for the text it captured.
\<close>

definition fire_debounce :: "nat \<Rightarrow> app \<Rightarrow> app" where
  "fire_debounce h s =
     (if h < length (timeouts s) \<and> db_pending (timeouts s ! h)
      then s\<lparr>timeouts := (timeouts s)[h := (timeouts s ! h)\<lparr>db_pending := False\<rparr>],
             suggestLoading := True,
             requests := requests s @ [\<lparr>rq_text = db_text (timeouts s ! h), rq_inflight = True\<rparr>]\<rparr>
      else s)"

text \<open>
  What the awaited request gives: a failure (of the network or of \<open>res.json()\<close>), or the
  body's \<open>suggestion\<close> field, if it has one.
\<close>

datatype fetch_result = FetchFailed | FetchOk "string option"

text \<open>
  The rest of the callback, run when request \<open>k\<close> completes:
  \<open>const sugg = (j?.suggestion || "").trim();
   if (sugg && sugg !== text.trim()) setSuggestion(sugg); else setSuggestion("");\<close>,
  \<open>catch { setSuggestion("") }\<close>, \<open>finally { setSuggestLoading(false) }\<close>.
\<close>

definition fetch_done :: "nat \<Rightarrow> fetch_result \<Rightarrow> app \<Rightarrow> app" where
  "fetch_done k res s =
     (if k < length (requests s) \<and> rq_inflight (requests s ! k)
      then (let text = rq_text (requests s ! k);
                s1 = s\<lparr>requests := (requests s)[k := (requests s ! k)\<lparr>rq_inflight := False\<rparr>]\<rparr>;
                s2 = (case res of
                        FetchFailed \<Rightarrow> s1\<lparr>suggestion := []\<rparr>
                      | FetchOk f \<Rightarrow>
                          (let sugg = js_trim (case f of None \<Rightarrow> [] | Some t \<Rightarrow> t)
                           in if truthy sugg \<and> sugg \<noteq> js_trim text
                              then s1\<lparr>suggestion := sugg\<rparr> else s1\<lparr>suggestion := []\<rparr>))
            in s2\<lparr>suggestLoading := False\<rparr>)
      else s)"

text \<open>
  Time passing up to \<open>now\<close>: every debounce timeout that is pending and due by then fires,
  in the order the timeouts were set.
\<close>

definition run_timers :: "nat \<Rightarrow> app \<Rightarrow> app" where
  "run_timers now s =
     fold (\<lambda>h a. if h < length (timeouts a) \<and> db_due (timeouts a ! h) \<le> now
                   then fire_debounce h a else a)
       [0 ..< length (timeouts s)] s"

text \<open>A change of the text at time \<open>now\<close>, after the timeouts due by then.\<close>

definition type_at :: "nat \<Rightarrow> string \<Rightarrow> app \<Rightarrow> app" where
  "type_at now v s = onChange now v (run_timers now s)"

section \<open>Sending\<close>

text \<open>
  \<open>send()\<close>, with the readings of \<open>Date.now()\<close> and \<open>performance.now()\<close> as inputs. The
  statements are kept in the order of the source.
\<close>

definition send :: "nat \<Rightarrow> real \<Rightarrow> app \<Rightarrow> app" where
  "send dnow pnow s =
     (let raw = trim (question s)
      in if \<not> truthy raw then s
         else
          (let corr = (autoCorrectOn s \<and> truthy (suggestion s) \<and> suggestion s \<noteq> raw);
               q = (if corr then suggestion s else raw);
               s1 = s\<lparr>ac := (if corr then Some \<lparr>original = raw, corrected = suggestion s\<rparr> else None),
                      suggestion := []\<rparr>;
               (i, s2) = ensureSession dnow q s1;
               s3 = s2\<lparr>runIdRef := Some i\<rparr>;
               (xs, c) = map_with_uid dnow
                           (\<lambda>m x. x\<lparr>title := (if length (messages x) \<noteq> 0 then title x else titleOf q),
                                     messages := messages x @
                                       [\<lparr>mid = m, role = User, content = q, citations = None\<rparr>],
                                     trace := Some []\<rparr>)
                           i (uidCounter s3) (sessions s3);
               s4 = s3\<lparr>sessions := xs, uidCounter := c\<rparr>;
               s5 = s4\<lparr>question := [], status := Thinking, elapsed := 0,
                       plan := \<lparr>intent = None, steps = []\<rparr>, progress := 0, statusLine := []\<rparr>;
               s6 = startTimer pnow s5;
               s7 = close_es s6
           in s7\<lparr>streams := streams s7 @
                     [\<lparr>st_owner = i, st_question = q, st_mode = mode s, st_open = True\<rparr>],
                  esRef := Some (length (streams s7))\<rparr>))"

section \<open>Stream events\<close>

text \<open>
  An event of the stream, with its payload as parsed: the fields the listeners read are
  options where the listener allows for their absence. \<open>Malformed\<close> is an event of one
  of the parsed kinds whose data \<open>JSON.parse\<close> rejects.
\<close>

datatype aux_kind = Queries | Search | Read | Extract | Rationale

fun aux_type :: "aux_kind \<Rightarrow> ev_type" where
  "aux_type Queries = TQueries"
| "aux_type Search = TSearch"
| "aux_type Read = TRead"
| "aux_type Extract = TExtract"
| "aux_type Rationale = TRationale"

datatype stream_event =
  PlanEvent "string option" "string list option"
| ProgressEvent "real option"
| StatusEvent "string option"
| TraceOnly aux_kind string
| FinalEvent string "string list option"
| ErrorEvent
| Malformed

datatype js_error = SyntaxError | SecurityError | QuotaExceededError | TypeError

text \<open>
  The listeners that \<open>send\<close> registers on its stream; \<open>i\<close> is the session id and \<open>h\<close> the
  stream the closures captured. A listener whose \<open>JSON.parse\<close> throws has changed nothing.
\<close>

fun on_event :: "nat \<Rightarrow> string \<Rightarrow> nat \<Rightarrow> stream_event \<Rightarrow> app \<Rightarrow> js_error + app" where
  "on_event dnow i h Malformed s = Inl SyntaxError"
| "on_event dnow i h (PlanEvent it st) s =
     Inr (appendTrace i \<lparr>ev_type = TPlan, ev_data = PlanData it st\<rparr>
            (s\<lparr>plan := \<lparr>intent = it, steps = (case st of None \<Rightarrow> [] | Some l \<Rightarrow> l)\<rparr>\<rparr>))"
| "on_event dnow i h (ProgressEvent p) s =
     Inr (case p of None \<Rightarrow> s | Some v \<Rightarrow> s\<lparr>progress := v\<rparr>)"
| "on_event dnow i h (StatusEvent st) s =
     Inr (appendTrace i \<lparr>ev_type = TStatus, ev_data = StateData st\<rparr>
            (s\<lparr>statusLine := (case st of None \<Rightarrow> [] | Some t \<Rightarrow> t)\<rparr>))"
| "on_event dnow i h (TraceOnly k j) s =
     Inr (appendTrace i \<lparr>ev_type = aux_type k, ev_data = JsonData j\<rparr> s)"
| "on_event dnow i h (FinalEvent answer cits) s =
     Inr (let (xs, c) = map_with_uid dnow
                          (\<lambda>m x. x\<lparr>messages := messages x @
                                      [\<lparr>mid = m, role = Assistant, content = answer,
                                        citations = cits\<rparr>]\<rparr>)
                          i (uidCounter s) (sessions s);
              s1 = s\<lparr>sessions := xs, uidCounter := c, progress := 100, status := Done\<rparr>;
              s2 = stopTimer s1
          in s2\<lparr>streams := close_stream h (streams s2), resets := Suc (resets s2)\<rparr>)"
| "on_event dnow i h ErrorEvent s =
     Inr (let s1 = appendTrace i
                     \<lparr>ev_type = TError, ev_data = MessageData ''Network/server error''\<rparr> s;
              s2 = stopTimer (s1\<lparr>status := Error\<rparr>)
          in s2\<lparr>streams := close_stream h (streams s2)\<rparr>)"

text \<open>
  The browser dispatching an event of stream \<open>h\<close>: a closed \<open>EventSource\<close> dispatches
  nothing, and an exception of a listener is reported and dropped.
\<close>

definition deliver :: "nat \<Rightarrow> nat \<Rightarrow> stream_event \<Rightarrow> app \<Rightarrow> app" where
  "deliver dnow h ev s =
     (if h < length (streams s) \<and> st_open (streams s ! h)
      then (case on_event dnow (st_owner (streams s ! h)) h ev s of
              Inl e \<Rightarrow> s | Inr s' \<Rightarrow> s')
      else s)"

text \<open>The time-out set by the final listener: \<open>setTimeout(() => setProgress(0), 800)\<close>.\<close>

definition reset_fire :: "app \<Rightarrow> app" where
  "reset_fire s = (if resets s > 0 then s\<lparr>resets := resets s - 1, progress := 0\<rparr> else s)"

section \<open>Everything that can happen\<close>

text \<open>
  The handlers run one at a time, each on the state the one before left. An action is a
  handler of the user interface (the textarea, the Send and Stop buttons, a key on the
  window, the history list, the mode buttons, the autocorrect toggle, the suggestion and
  the correction pill) or a callback of the browser (an interval, a debounce timeout, a
  completed request, an event of a stream, the time-out that resets the progress). Here a
  debounce timeout may fire at any moment while it is pending; \<open>run_timers\<close> above fires
  it when it is due. The state that only the view reads (the copied message, the research
  panel, the title being edited) is left out.
\<close>

datatype action =
  Type nat string
| Send nat real
| KeyDown string
| ClickStop
| NewChat
| Select string
| Delete string
| Rename string string
| SetMode mode
| ToggleAutocorrect
| UseSuggestion
| Dismiss
| UseOriginal
| Keep
| Tick nat real
| DebounceFires nat
| FetchDone nat fetch_result
| StreamEvent nat nat stream_event
| ResetFires

fun step :: "action \<Rightarrow> app \<Rightarrow> app" where
  "step (Type now v) s = onChange now v s"
| "step (Send dnow pnow) s = send dnow pnow s"
| "step (KeyDown key) s = onKey key s"
| "step ClickStop s = clickStop s"
| "step NewChat s = newChat s"
| "step (Select i) s = s\<lparr>currentId := Some i\<rparr>"
| "step (Delete i) s = deleteSession i s"
| "step (Rename i name) s = renameSession i name s"
| "step (SetMode m) s = setMode m s"
| "step ToggleAutocorrect s = s\<lparr>autoCorrectOn := \<not> autoCorrectOn s\<rparr>"
| "step UseSuggestion s = s\<lparr>question := suggestion s\<rparr>"
| "step Dismiss s = s\<lparr>suggestion := []\<rparr>"
| "step UseOriginal s =
     (case ac s of None \<Rightarrow> s | Some r \<Rightarrow> s\<lparr>question := original r, ac := None\<rparr>)"
| "step Keep s = s\<lparr>ac := None\<rparr>"
| "step (Tick t pnow) s = tick t pnow s"
| "step (DebounceFires h) s = fire_debounce h s"
| "step (FetchDone k res) s = fetch_done k res s"
| "step (StreamEvent dnow h ev) s = deliver dnow h ev s"
| "step ResetFires s = reset_fire s"

definition run :: "action list \<Rightarrow> app \<Rightarrow> app" where
  "run as s = fold step as s"

section \<open>Persistence\<close>










section \<open>One run at a time\<close>

text \<open>
  At most one stream is open, and it is the one \<open>esRef\<close> holds; at most one interval
  ticks, and it is the one \<open>timerRef\<close> holds.
\<close>

definition one_open :: "app \<Rightarrow> bool" where
  "one_open s \<longleftrightarrow> (\<forall>h < length (streams s). st_open (streams s ! h) \<longrightarrow> esRef s = Some h)"

definition one_ticking :: "app \<Rightarrow> bool" where
  "one_ticking s \<longleftrightarrow> (\<forall>t < length (intervals s). intervals s ! t \<longrightarrow> timerRef s = Some t)"

text \<open>A later store of streams has every earlier stream, and a closed one is still closed.\<close>

definition stays_closed :: "stream list \<Rightarrow> stream list \<Rightarrow> bool" where
  "stays_closed xs ys \<longleftrightarrow>
     length xs \<le> length ys \<and> (\<forall>h < length xs. \<not> st_open (xs ! h) \<longrightarrow> \<not> st_open (ys ! h))"

section \<open>Bursts of typing\<close>

text \<open>
  A sequence of text changes, each with its time; \<open>quick t es\<close> says that the changes
  follow the time \<open>t\<close> and one another by less than 300ms and that each text has at
  least three characters after trimming.
\<close>

fun burst :: "(nat \<times> string) list \<Rightarrow> app \<Rightarrow> app" where
  "burst [] s = s"
| "burst ((t, v) # es) s = burst es (type_at t v s)"

fun quick :: "nat \<Rightarrow> (nat \<times> string) list \<Rightarrow> bool" where
  "quick t [] \<longleftrightarrow> True"
| "quick t ((t', v) # es) \<longleftrightarrow> t \<le> t' \<and> t' < t + 300 \<and> length (trim v) \<ge> 3 \<and> quick t' es"

text \<open>
  The state after such a change at time \<open>t\<close>: the timeout set last is pending, due at
  \<open>t + 300\<close> for the trimmed text, and held by \<open>suggestTimerRef\<close>; no other is pending.
\<close>

definition armed :: "nat \<Rightarrow> string \<Rightarrow> app \<Rightarrow> bool" where
  "armed t v s \<longleftrightarrow>
     autoCorrectOn s \<and> timeouts s \<noteq> []
     \<and> suggestTimerRef s = Some (length (timeouts s) - 1)
     \<and> timeouts s ! (length (timeouts s) - 1) = \<lparr>db_text = trim v, db_due = t + 300, db_pending = True\<rparr>
     \<and> (\<forall>h < length (timeouts s) - 1. \<not> db_pending (timeouts s ! h))"

section \<open>Scenarios\<close>

text \<open>Concrete states, reached from the initial state by the operations above.\<close>

text \<open>A stored list in which one session has the empty string as its id.\<close>

definition blank_id_sessions :: "session list" where
  "blank_id_sessions =
     [\<lparr>sid = ''a'', title = ''A'', s_mode = Fast, messages = [], trace = None, createdAt = 0\<rparr>,
      \<lparr>sid = [], title = ''B'', s_mode = Fast, messages = [], trace = None, createdAt = 1\<rparr>]"

definition two_sessions :: "session list" where
  "two_sessions =
     [\<lparr>sid = ''a'', title = ''A'', s_mode = Fast, messages = [], trace = None, createdAt = 0\<rparr>,
      \<lparr>sid = ''b'', title = ''B'', s_mode = Thorough, messages = [], trace = Some [], createdAt = 1\<rparr>]"

text \<open>The user has typed a question into the empty application, and then sent it.\<close>

definition asked :: app where
  "asked = onChange 0 ''waht is ai'' (init [])"

definition running :: app where
  "running = send 5 0 asked"

definition stopped_event :: trace_event where
  "stopped_event = \<lparr>ev_type = TStatus, ev_data = StateData (Some ''Stopped by user'')\<rparr>"

text \<open>
  A suggestion arrives for the question typed, the user types on within the quiet period,
  and sends.
\<close>

definition suggested :: app where
  "suggested = fetch_done 0 (FetchOk (Some ''what is ai'')) (run_timers 300 asked)"

definition typed_on :: app where
  "typed_on = type_at 400 ''waht is ai and ml'' suggested"

definition resent :: app where
  "resent = send 5 0 typed_on"

text \<open>
  Two requests in flight at once: the timeout of the first text fires, the text changes,
  the second timeout fires; then the second response arrives before the first.
\<close>

definition overlap0 :: app where
  "overlap0 = type_at 0 ''waht'' (init [])"

definition overlap1 :: app where
  "overlap1 = run_timers 700 (type_at 400 ''waht is'' overlap0)"

definition overlap2 :: app where
  "overlap2 = fetch_done 0 (FetchOk (Some ''what'')) (fetch_done 1 (FetchOk (Some ''what is'')) overlap1)"

text \<open>
  The text is shortened below three characters within the quiet period; autocorrect is
  switched off within the quiet period; a burst of changes less than 300ms apart with a
  short text in the middle.
\<close>

definition short0 :: app where
  "short0 = type_at 100 ''wa'' (type_at 0 ''wah'' (init []))"

definition short1 :: app where
  "short1 = fetch_done 0 (FetchOk (Some ''what'')) (run_timers 400 short0)"

definition switched_off :: app where
  "switched_off = type_at 100 ''waht i'' (step ToggleAutocorrect (type_at 0 ''waht'' (init [])))"

definition burst3 :: app where
  "burst3 = run_timers 700 (type_at 400 ''wah'' (type_at 200 ''wa'' (type_at 0 ''wah'' (init []))))"

text \<open>While the run is thinking, the user types another question and sends it.\<close>

definition rerun :: app where
  "rerun = send 7 0 (onChange 500 ''and ml'' running)"





section \<open>Auxiliary facts\<close>

lemmas text_defs =
  trim_def js_trim_def is_space_def truthy_def titleOf_def uid_def dec.simps digit_char_def

lemmas op_defs =
  send_def init_def onChange_def requestAutocorrect_def ensureSession_def current_def
  id_or_null_def startTimer_def stopTimer_def close_es_def close_stream_def stopRun_def
  appendTrace_def deleteSession_def fire_debounce_def fetch_done_def deliver_def Let_def

lemmas scene_defs =
  asked_def running_def suggested_def typed_on_def resent_def overlap0_def overlap1_def overlap2_def
  short0_def short1_def switched_off_def burst3_def type_at_def run_timers_def

lemma or_zero_id: "or_zero x = x"
  by (simp add: or_zero_def)

lemma bitlen_0 [simp]: "bitlen 0 = 0"
  by (simp add: bitlen.simps)

lemma bitlen_1 [simp]: "bitlen 1 = 1" "bitlen (Suc 0) = 1"
  by (simp_all add: bitlen.simps)

lemma bitlen_numeral [simp]: "bitlen (numeral k) = Suc (bitlen (numeral k div 2))"
  by (subst bitlen.simps) simp

lemmas dbl_defs =
  step_threshold_def fl_sub_def fl_mul_def fl_div_def dbl_of_nat_def num_of_def den_of_def
  round_rat_def round_pos_def val_def

lemma bitlen_bounds: "n > 0 \<Longrightarrow> 2 ^ (bitlen n - 1) \<le> n \<and> n < 2 ^ bitlen n"
proof (induction n rule: bitlen.induct)
  case (1 n)
  show ?case
  proof (cases "n div 2 = 0")
    case True
    with "1.prems" have "n = 1" by (cases n) auto
    then show ?thesis by simp
  next
    case False
    then have pos: "n div 2 > 0" by simp
    from "1.prems" have n0: "n \<noteq> 0" by simp
    from "1.IH" [OF n0 pos] have lo: "2 ^ (bitlen (n div 2) - 1) \<le> n div 2"
      and hi: "n div 2 < 2 ^ bitlen (n div 2)" by simp_all
    have b: "bitlen n = Suc (bitlen (n div 2))" using n0 by (subst bitlen.simps) simp
    from pos have bp: "bitlen (n div 2) > 0" by (subst bitlen.simps) simp
    then have e: "bitlen n - 1 = Suc (bitlen (n div 2) - 1)" using b by simp
    have "2 ^ (bitlen n - 1) \<le> 2 * (n div 2)" unfolding e using lo by simp
    also have "\<dots> \<le> n" by simp
    finally have 1: "2 ^ (bitlen n - 1) \<le> n" .
    have "n < 2 * (n div 2) + 2" by presburger
    also have "\<dots> \<le> 2 * 2 ^ bitlen (n div 2)" using hi by simp
    finally have "n < 2 ^ bitlen n" by (simp add: b)
    with 1 show ?thesis by simp
  qed
qed

lemma nearest_step:
  fixes Y :: real and m0 r s h :: nat
  assumes p: "(2::nat) ^ s = 2 * h" and lo: "real m0 + real r / 2 ^ s \<le> Y"
    and hi: "Y < real m0 + (real r + 1) / 2 ^ s" and r: "r < 2 ^ s"
    and st: "sticky \<longleftrightarrow> Y \<noteq> real m0 + real r / 2 ^ s"
  shows "\<bar>real (if r > h \<or> (r = h \<and> (sticky \<or> odd m0)) then m0 + 1 else m0) - Y\<bar> \<le> 1 / 2"
proof -
  from p have "real (2 ^ s) = real (2 * h)" by simp
  then have pr: "(2::real) ^ s = 2 * real h" by simp
  have "h > 0" using p by (cases h) auto
  then have hpos: "real h > 0" by simp
  define A where "A = real r / (2 * real h)"
  define B where "B = (real r + 1) / (2 * real h)"
  have lo': "real m0 + A \<le> Y" using lo by (simp add: pr A_def)
  have hi': "Y < real m0 + B" using hi by (simp add: pr B_def)
  have st': "sticky \<longleftrightarrow> Y \<noteq> real m0 + A" using st by (simp add: pr A_def)
  have suc: "real (m0 + 1) = real m0 + 1" by simp
  from r p have rl: "r < 2 * h" by simp
  consider (gt) "r > h" | (eq) "r = h" | (lt) "r < h" by linarith
  then show ?thesis
  proof cases
    case gt
    then have "real r \<ge> real h + 1" by linarith
    then have a: "A > 1 / 2" unfolding A_def using hpos by (simp add: field_simps)
    from rl have "real r + 1 \<le> 2 * real h" by linarith
    then have b: "B \<le> 1" unfolding B_def using hpos by (simp add: field_simps)
    from gt have c: "(if r > h \<or> (r = h \<and> (sticky \<or> odd m0)) then m0 + 1 else m0) = m0 + 1"
      by simp
    have "\<bar>real (m0 + 1) - Y\<bar> \<le> 1 / 2" unfolding suc using a b lo' hi' by linarith
    then show ?thesis by (simp only: c)
  next
    case eq
    then have e1: "A = 1 / 2" unfolding A_def using hpos by (simp add: field_simps)
    from rl have "real r + 1 \<le> 2 * real h" by linarith
    then have e2: "B \<le> 1" unfolding B_def using hpos by (simp add: field_simps)
    show ?thesis
    proof (cases "sticky \<or> odd m0")
      case True
      with eq have c: "(if r > h \<or> (r = h \<and> (sticky \<or> odd m0)) then m0 + 1 else m0) = m0 + 1"
        by simp
      have "\<bar>real (m0 + 1) - Y\<bar> \<le> 1 / 2" unfolding suc using e1 e2 lo' hi' by linarith
      then show ?thesis by (simp only: c)
    next
      case False
      with eq have c: "(if r > h \<or> (r = h \<and> (sticky \<or> odd m0)) then m0 + 1 else m0) = m0"
        by simp
      from False st' have "Y = real m0 + A" by simp
      then have "\<bar>real m0 - Y\<bar> \<le> 1 / 2" using e1 by linarith
      then show ?thesis by (simp only: c)
    qed
  next
    case lt
    then have "real r + 1 \<le> real h" by linarith
    then have a: "B \<le> 1 / 2" unfolding B_def using hpos by (simp add: field_simps)
    have b: "A \<ge> 0" unfolding A_def by simp
    from lt have c: "(if r > h \<or> (r = h \<and> (sticky \<or> odd m0)) then m0 + 1 else m0) = m0"
      by simp
    have "\<bar>real m0 - Y\<bar> \<le> 1 / 2" using a b lo' hi' by linarith
    then show ?thesis by (simp only: c)
  qed
qed


lemma bitlen_real:
  assumes "n > 0"
  shows "2 powi (int (bitlen n) - 1) \<le> real n" "real n < 2 powi int (bitlen n)"
proof -
  from bitlen_bounds [OF assms] have lo: "2 ^ (bitlen n - 1) \<le> n" and hi: "n < 2 ^ bitlen n"
    by simp_all
  from hi assms have b: "bitlen n \<ge> 1" by (cases "bitlen n") auto
  then have e: "int (bitlen n) - 1 = int (bitlen n - 1)" by simp
  from lo have "real (2 ^ (bitlen n - 1)) \<le> real n" by (rule of_nat_mono)
  then show "2 powi (int (bitlen n) - 1) \<le> real n" unfolding e by simp
  from hi have "real n < real (2 ^ bitlen n)" by (simp only: of_nat_less_iff)
  then show "real n < 2 powi int (bitlen n)" by simp
qed

lemma two_powi_combine: "(2::real) powi a / 2 powi b * 2 powi c = 2 powi (a - b + c)"
  by (simp add: power_int_add power_int_diff)

lemma round_pos_err:
  assumes p: "p > 0" and q: "q > 0"
  shows "\<bar>val (round_pos p q) - real p / real q\<bar> \<le> (real p / real q) / 2 ^ 53"
proof -
  define k :: int where "k = int (bitlen q) - int (bitlen p) + 54"
  define num where "num = (if k \<ge> 0 then p * 2 ^ nat k else p)"
  define den where "den = (if k \<ge> 0 then q else q * 2 ^ nat (- k))"
  define a where "a = num div den"
  define sticky where "sticky \<longleftrightarrow> num mod den \<noteq> 0"
  define s where "s = bitlen a - 53"
  define m0 where "m0 = a div 2 ^ s"
  define r where "r = a mod 2 ^ s"
  define m where "m = (if r > 2 ^ (s - 1) \<or> (r = 2 ^ (s - 1) \<and> (sticky \<or> odd m0)) then m0 + 1 else m0)"
  have rp: "round_pos p q = (int m, int s - k)"
    unfolding round_pos_def Let_def m_def r_def m0_def s_def sticky_def a_def den_def num_def k_def
    by simp
  define X where "X = real num / real den"
  have den_pos: "den > 0" using q by (simp add: den_def)
  have X_eq: "X = (real p / real q) * 2 powi k"
  proof (cases "k \<ge> 0")
    case True
    then show ?thesis by (simp add: X_def num_def den_def power_int_nonneg_exp)
  next
    case False
    then have "(2::real) powi k = 1 / 2 ^ nat (- k)"
      by (simp add: power_int_def power_inverse inverse_eq_divide power_one_over)
    with False show ?thesis by (simp add: X_def num_def den_def)
  qed
  note bp = bitlen_real [OF p] and bq = bitlen_real [OF q]
  have rq: "real q > 0" using q by simp
  have rpp: "real p > 0" using p by simp
  have Xlo: "2 ^ 53 < X"
  proof -
    have "2 powi (int (bitlen p) - 1) / 2 powi int (bitlen q) < real p / real q"
    proof -
      have "2 powi (int (bitlen p) - 1) / 2 powi int (bitlen q) < 2 powi (int (bitlen p) - 1) / real q"
        using bq(2) rq by (intro divide_strict_left_mono) simp_all
      also have "\<dots> \<le> real p / real q"
        using bp(1) rq by (intro divide_right_mono) simp_all
      finally show ?thesis .
    qed
    then have "2 powi (int (bitlen p) - 1) / 2 powi int (bitlen q) * 2 powi k < X"
      unfolding X_eq by (intro mult_strict_right_mono) simp_all
    moreover have "int (bitlen p) - 1 - int (bitlen q) + k = 53" by (simp add: k_def)
    then have "2 powi (int (bitlen p) - 1) / 2 powi int (bitlen q) * 2 powi k = (2::real) powi 53"
      by (simp only: two_powi_combine)
    ultimately show ?thesis by simp
  qed
  have Xhi: "X < 2 ^ 55"
  proof -
    have "real p / real q < 2 powi int (bitlen p) / 2 powi (int (bitlen q) - 1)"
    proof -
      have "real p / real q < 2 powi int (bitlen p) / real q"
        using bp(2) rq by (intro divide_strict_right_mono) simp_all
      also have "\<dots> \<le> 2 powi int (bitlen p) / 2 powi (int (bitlen q) - 1)"
        using bq(1) rq by (intro divide_left_mono) (simp_all add: mult_pos_pos)
      finally show ?thesis .
    qed
    then have "X < 2 powi int (bitlen p) / 2 powi (int (bitlen q) - 1) * 2 powi k"
      unfolding X_eq by (intro mult_strict_right_mono) simp_all
    moreover have "int (bitlen p) - (int (bitlen q) - 1) + k = 55" by (simp add: k_def)
    then have "2 powi int (bitlen p) / 2 powi (int (bitlen q) - 1) * 2 powi k = (2::real) powi 55"
      by (simp only: two_powi_combine)
    ultimately show ?thesis by simp
  qed
  define f where "f = real (num mod den) / real den"
  have Xa: "X = real a + f"
    unfolding X_def a_def f_def by (rule of_nat_of_nat_div_aux)
  have f0: "0 \<le> f" unfolding f_def by simp
  have f1: "f < 1" unfolding f_def using den_pos by simp
  have fs: "sticky \<longleftrightarrow> f \<noteq> 0" unfolding f_def sticky_def using den_pos by simp
  have alo: "2 ^ 53 \<le> a"
  proof -
    from Xlo Xa f1 have "real (2 ^ 53) < real (a + 1)" by simp
    then have "2 ^ 53 < a + 1" by (simp only: of_nat_less_iff)
    then show ?thesis by simp
  qed
  have ahi: "a < 2 ^ 55"
  proof -
    from Xhi Xa f0 have "real a < real (2 ^ 55)" by simp
    then show ?thesis by (simp only: of_nat_less_iff)
  qed
  from alo have apos: "a > 0" by simp
  from bitlen_bounds [OF apos] have bl: "2 ^ (bitlen a - 1) \<le> a" and bh: "a < 2 ^ bitlen a"
    by simp_all
  have one: "(1::nat) < 2" by simp
  from alo bh have "(2::nat) ^ 53 < 2 ^ bitlen a" by (rule le_less_trans)
  from power_less_imp_less_exp [OF one this] have b1: "53 < bitlen a" .
  from b1 have s1: "s \<ge> 1" by (simp add: s_def)
  from b1 have ba: "bitlen a - 1 = 52 + s" by (simp add: s_def)
  have a_eq: "a = m0 * 2 ^ s + r" unfolding m0_def r_def by (rule div_mult_mod_eq [symmetric])
  have r_lt: "r < 2 ^ s" by (simp add: r_def)
  from s1 have two: "(2::nat) ^ s = 2 * 2 ^ (s - 1)" by (cases s) simp_all
  define Y where "Y = X / 2 ^ s"
  have Ya: "Y = real m0 + real r / 2 ^ s + f / 2 ^ s"
    unfolding Y_def Xa a_eq by (simp add: field_simps)
  have lo: "real m0 + real r / 2 ^ s \<le> Y" unfolding Ya using f0 by simp
  have "f / 2 ^ s < 1 / 2 ^ s" using f1 by (intro divide_strict_right_mono) simp_all
  then have hi: "Y < real m0 + (real r + 1) / 2 ^ s" unfolding Ya by (simp add: add_divide_distrib)
  have st: "sticky \<longleftrightarrow> Y \<noteq> real m0 + real r / 2 ^ s" unfolding Ya fs by simp
  from nearest_step [OF two lo hi r_lt st]
  have near: "\<bar>real m - Y\<bar> \<le> 1 / 2" unfolding m_def .
  have Ylo: "2 ^ 52 \<le> Y"
  proof -
    from bl ba have "2 ^ (52 + s) \<le> a" by simp
    then have "real (2 ^ (52 + s)) \<le> real a" by (rule of_nat_mono)
    then have "2 ^ 52 * 2 ^ s \<le> real a" by (simp add: power_add)
    also have "\<dots> \<le> X" using Xa f0 by simp
    finally show ?thesis unfolding Y_def by (simp add: field_simps)
  qed
  define c :: real where "c = 2 powi (int s - k)"
  have cpos: "c > 0" by (simp add: c_def)
  have pq: "real p / real q = Y * c"
  proof -
    have "Y * c = X * (2 powi (int s - k) / 2 ^ s)" by (simp add: Y_def c_def)
    also have "2 powi (int s - k) / 2 ^ s = (2::real) powi (- k)"
      by (simp add: power_int_diff power_int_minus field_simps)
    also have "X * 2 powi (- k) = real p / real q"
      by (simp add: X_eq power_int_minus field_simps)
    finally show ?thesis by simp
  qed
  have "val (round_pos p q) = real m * c" by (simp add: rp val_def c_def)
  then have "\<bar>val (round_pos p q) - real p / real q\<bar> = \<bar>real m - Y\<bar> * c"
    using cpos by (simp add: pq abs_mult left_diff_distrib [symmetric])
  also have "\<dots> \<le> 1 / 2 * c" using near cpos by (intro mult_right_mono) simp_all
  also have "\<dots> \<le> Y * c / 2 ^ 53" using Ylo cpos by (simp add: field_simps)
  finally show ?thesis by (simp add: pq)
qed


lemma round_rat_err:
  assumes "d > 0"
  shows "\<bar>val (round_rat n d) - real_of_int n / real d\<bar> \<le> \<bar>real_of_int n / real d\<bar> / 2 ^ 53"
proof -
  consider (zero) "n = 0" | (pos) "n > 0" | (neg) "n < 0" by linarith
  then show ?thesis
  proof cases
    case zero
    then show ?thesis by (simp add: round_rat_def val_def)
  next
    case pos
    then have e: "real_of_int n = real (nat n)" by simp
    from pos have np: "nat n > 0" by simp
    have v: "val (round_rat n d) = val (round_pos (nat n) d)"
      using pos by (simp add: round_rat_def)
    have "real (nat n) / real d \<ge> 0" by simp
    then have ab: "\<bar>real (nat n) / real d\<bar> = real (nat n) / real d" by (rule abs_of_nonneg)
    from round_pos_err [OF np assms] show ?thesis unfolding e v ab .
  next
    case neg
    then have e: "real_of_int n = - real (nat (- n))" by simp
    from neg have np: "nat (- n) > 0" by simp
    have v: "val (round_rat n d) = - val (round_pos (nat (- n)) d)"
      using neg by (simp add: round_rat_def val_def)
    have "real (nat (- n)) / real d \<ge> 0" by simp
    then have ab: "\<bar>- real (nat (- n)) / real d\<bar> = real (nat (- n)) / real d" by simp
    have sw: "\<bar>- val (round_pos (nat (- n)) d) - - real (nat (- n)) / real d\<bar>
                = \<bar>val (round_pos (nat (- n)) d) - real (nat (- n)) / real d\<bar>"
      by (simp add: abs_if)
    from round_pos_err [OF np assms] show ?thesis unfolding e v ab sw .
  qed
qed

lemma den_of_pos [simp]: "den_of x > 0"
  by (simp add: den_of_def)

lemma val_num_den: "val x = real_of_int (num_of x) / real (den_of x)"
proof (cases "snd x \<ge> 0")
  case True
  then show ?thesis by (simp add: val_def num_of_def den_of_def power_int_nonneg_exp)
next
  case False
  then have "(2::real) powi snd x = 1 / 2 ^ nat (- snd x)"
    by (simp add: power_int_def power_inverse inverse_eq_divide power_one_over)
  with False show ?thesis by (simp add: val_def num_of_def den_of_def)
qed

lemma val_dbl_of_nat [simp]: "val (dbl_of_nat n) = real n"
  by (simp add: val_def dbl_of_nat_def)

lemma fl_mul_err: "\<bar>val (fl_mul x y) - val x * val y\<bar> \<le> \<bar>val x * val y\<bar> / 2 ^ 53"
proof -
  have eq: "real_of_int (num_of x * num_of y) / real (den_of x * den_of y) = val x * val y"
    by (simp add: val_num_den)
  have "\<bar>val (round_rat (num_of x * num_of y) (den_of x * den_of y))
          - real_of_int (num_of x * num_of y) / real (den_of x * den_of y)\<bar>
        \<le> \<bar>real_of_int (num_of x * num_of y) / real (den_of x * den_of y)\<bar> / 2 ^ 53"
    by (rule round_rat_err) simp
  then show ?thesis unfolding fl_mul_def eq .
qed

lemma fl_sub_err: "\<bar>val (fl_sub x y) - (val x - val y)\<bar> \<le> \<bar>val x - val y\<bar> / 2 ^ 53"
proof -
  have eq: "real_of_int (num_of x * int (den_of y) - num_of y * int (den_of x)) / real (den_of x * den_of y)
          = val x - val y"
    by (simp add: val_num_den field_simps)
  have "\<bar>val (round_rat (num_of x * int (den_of y) - num_of y * int (den_of x)) (den_of x * den_of y))
          - real_of_int (num_of x * int (den_of y) - num_of y * int (den_of x)) / real (den_of x * den_of y)\<bar>
        \<le> \<bar>real_of_int (num_of x * int (den_of y) - num_of y * int (den_of x)) / real (den_of x * den_of y)\<bar> / 2 ^ 53"
    by (rule round_rat_err) simp
  then show ?thesis unfolding fl_sub_def eq .
qed

lemma fl_div_err:
  assumes "val y > 0"
  shows "\<bar>val (fl_div x y) - val x / val y\<bar> \<le> \<bar>val x / val y\<bar> / 2 ^ 53"
proof -
  from assms have ny: "num_of y > 0"
    by (simp add: val_num_den zero_less_divide_iff)
  then have d: "den_of x * nat (num_of y) > 0" by simp
  have eq: "real_of_int (num_of x * int (den_of y)) / real (den_of x * nat (num_of y)) = val x / val y"
    using ny by (simp add: val_num_den)
  have "\<bar>val (round_rat (num_of x * int (den_of y)) (den_of x * nat (num_of y)))
          - real_of_int (num_of x * int (den_of y)) / real (den_of x * nat (num_of y))\<bar>
        \<le> \<bar>real_of_int (num_of x * int (den_of y)) / real (den_of x * nat (num_of y))\<bar> / 2 ^ 53"
    using d by (rule round_rat_err)
  then show ?thesis unfolding fl_div_def eq .
qed

lemma step_threshold_close:
  assumes "i < n"
  shows "\<bar>val (step_threshold n i) - ((real (i + 1) / real n) * 100 - 1)\<bar> \<le> 1 / 2 ^ 44"
proof -
  define r where "r = real (i + 1) / real n"
  define d where "d = val (fl_div (dbl_of_nat (i + 1)) (dbl_of_nat n))"
  define P where "P = val (fl_mul (fl_div (dbl_of_nat (i + 1)) (dbl_of_nat n)) (dbl_of_nat 100))"
  define S where "S = val (step_threshold n i)"
  have K: "(2::real) ^ 53 = 9007199254740992" by simp
  have K': "(2::real) ^ 44 = 17592186044416" by simp
  from assms have npos: "real n > 0" by simp
  have r0: "0 < r" unfolding r_def using npos by simp
  have r1: "r \<le> 1" unfolding r_def using assms npos by simp
  have vn: "val (dbl_of_nat n) > 0" using npos by simp
  have "\<bar>r\<bar> = r" using r0 by simp
  with fl_div_err [OF vn, of "dbl_of_nat (i + 1)"]
  have e1: "\<bar>d - r\<bar> \<le> r / 9007199254740992" by (simp add: d_def r_def)
  from e1 r0 r1 have d0: "0 \<le> d" and d1: "d \<le> 101 / 100" by linarith+
  from fl_mul_err [of "fl_div (dbl_of_nat (i + 1)) (dbl_of_nat n)" "dbl_of_nat 100"]
  have "\<bar>P - d * 100\<bar> \<le> \<bar>d * 100\<bar> / 9007199254740992" by (simp add: P_def d_def)
  moreover have "\<bar>d * 100\<bar> = d * 100" using d0 by simp
  ultimately have e2: "\<bar>P - d * 100\<bar> \<le> d * 100 / 9007199254740992" by simp
  from e2 d0 d1 have P0: "-1 \<le> P" and P1: "P \<le> 102" by linarith+
  from fl_sub_err [of "fl_mul (fl_div (dbl_of_nat (i + 1)) (dbl_of_nat n)) (dbl_of_nat 100)" "dbl_of_nat 1"]
  have e3: "\<bar>S - (P - 1)\<bar> \<le> \<bar>P - 1\<bar> / 9007199254740992"
    by (simp add: S_def P_def step_threshold_def)
  from P0 P1 have "\<bar>P - 1\<bar> \<le> 102" by linarith
  then have "\<bar>P - 1\<bar> / 9007199254740992 \<le> 102 / 9007199254740992"
    by (intro divide_right_mono) simp_all
  with e3 have e3': "\<bar>S - (P - 1)\<bar> \<le> 102 / 9007199254740992" by (rule order_trans)
  from e1 e2 e3' r0 r1 d0 d1 have "\<bar>S - (r * 100 - 1)\<bar> \<le> 1 / 17592186044416"
    by linarith
  then show ?thesis unfolding S_def r_def K' .
qed

lemma threshold_values:
  "val (step_threshold 25 6) = 27 + 1 / 2 ^ 48"
  "val (step_threshold 100 0) = 0"
  "val (step_threshold 3 0) = 2275256061744469 / 2 ^ 46"
  by (simp_all add: dbl_defs)

lemma displayed_pct_range: "0 \<le> displayed_pct p \<and> displayed_pct p \<le> 100"
  unfolding displayed_pct_def toFixed0_def or_zero_def
  by (auto simp: max_def min_def; linarith)

lemma find_as_filter:
  "find P xs = (case filter P xs of [] \<Rightarrow> None | x # _ \<Rightarrow> Some x)"
  by (induction xs) auto

lemma map_with_uid_absent:
  "i \<notin> sid ` set xs \<Longrightarrow> map_with_uid dnow f i c xs = (xs, c)"
  by (induction xs arbitrary: c) auto

lemma appendTrace_absent:
  assumes "i \<notin> sid ` set (sessions s)"
  shows "appendTrace i ev s = s"
proof -
  have "map (\<lambda>x. if sid x = i
                  then x\<lparr>trace := Some ((case trace x of None \<Rightarrow> [] | Some t \<Rightarrow> t) @ [ev])\<rparr>
                  else x) (sessions s) = sessions s"
    using assms by (intro map_idI) auto
  then show ?thesis by (simp add: appendTrace_def)
qed

lemma sessions_stopTimer [simp]: "sessions (stopTimer s) = sessions s"
  by (simp add: stopTimer_def split: option.splits)

lemma running_facts:
  "map sid (sessions running) = [''m_5_0'']"
  "runIdRef running = Some ''m_5_0''"
  "status running = Thinking"
  "esRef running = Some 0"
  "timerRef running = Some 0"
  "streams running =
     [\<lparr>st_owner = ''m_5_0'', st_question = ''waht is ai'', st_mode = Thorough, st_open = True\<rparr>]"
  "intervals running = [True]"
  "map (map content \<circ> messages) (sessions running) = [[''waht is ai'']]"
  "map trace (sessions running) = [Some []]"
  "progress running = 0"
  by (simp_all add: running_def asked_def op_defs text_defs)

section \<open>Step completion\<close>

lemma row_done:
  "i < length (steps p) \<Longrightarrow>
     fst (lv_rows (ClaudeLoader p pr) ! i) \<longleftrightarrow> pr \<ge> val (step_threshold (length (steps p)) i)"
  by (auto simp add: ClaudeLoader_def step_rows_def step_done_def or_zero_id)

lemma threshold_far:
  assumes "i < n" and "\<bar>pr - ((real (i + 1) / real n) * 100 - 1)\<bar> > 1 / 2 ^ 44"
  shows "pr \<ge> val (step_threshold n i) \<longleftrightarrow> pr \<ge> (real (i + 1) / real n) * 100 - 1"
proof -
  define T where "T = (real (i + 1) / real n) * 100 - 1"
  define S where "S = val (step_threshold n i)"
  have K: "(2::real) ^ 44 = 17592186044416" by simp
  from step_threshold_close [OF assms(1)] have c: "\<bar>S - T\<bar> \<le> 1 / 17592186044416"
    unfolding S_def T_def K .
  from assms(2) have f: "\<bar>pr - T\<bar> > 1 / 17592186044416" unfolding T_def K .
  from c f have "pr \<ge> S \<longleftrightarrow> pr \<ge> T" by linarith
  then show ?thesis unfolding S_def T_def .
qed

lemma four_steps_at_60:
  "step_done 4 0 60" "step_done 4 (Suc 0) 60" "\<not> step_done 4 2 60" "\<not> step_done 4 3 60"
  using threshold_far [of 0 4 60] threshold_far [of 1 4 60]
    threshold_far [of 2 4 60] threshold_far [of 3 4 60]
  by (simp_all add: step_done_def or_zero_id)

text \<open>
  C4, as the claim states it, fails in both directions: the source computes the threshold
  in binary64, which rounds. With 25 steps the threshold of step 6 is the double
  27 + 2^-48 (printed 27.000000000000004), so at progress 27 the step is not marked done,
  although 27 >= (7/25)*100 - 1 holds. With 3 steps the threshold of step 0 is the double
  2275256061744469 / 2^46 (printed 32.33333333333333), so at that progress the step is
  marked done, although it is below (1/3)*100 - 1.
\<close>

theorem step_done_exact_counterexample:
  "\<not> fst (lv_rows (ClaudeLoader \<lparr>intent = None, steps = replicate 25 ''s''\<rparr> 27) ! 6)
   \<and> (27::real) \<ge> (real (6 + 1) / real (length (replicate 25 ''s''))) * 100 - 1
   \<and> val (step_threshold 25 6) = 27 + 1 / 2 ^ 48
   \<and> fst (lv_rows (ClaudeLoader \<lparr>intent = None, steps = replicate 3 ''s''\<rparr>
             (2275256061744469 / 2 ^ 46)) ! 0)
   \<and> \<not> (2275256061744469 / 2 ^ 46 :: real)
         \<ge> (real (0 + 1) / real (length (replicate 3 ''s''))) * 100 - 1
   \<and> val (step_threshold 3 0) = 2275256061744469 / 2 ^ 46"
proof -
  have l: "6 < length (steps \<lparr>intent = None, steps = replicate 25 ''s''\<rparr>)" by simp
  have "\<not> (27::real) \<ge> 27 + 1 / 2 ^ 48" by simp
  then have a: "\<not> fst (lv_rows (ClaudeLoader \<lparr>intent = None, steps = replicate 25 ''s''\<rparr> 27) ! 6)"
    unfolding row_done [OF l] by (simp add: threshold_values)
  have b: "(27::real) \<ge> (real (6 + 1) / real (length (replicate 25 ''s''))) * 100 - 1"
    by simp
  have m: "0 < length (steps \<lparr>intent = None, steps = replicate 3 ''s''\<rparr>)" by simp
  have c: "fst (lv_rows (ClaudeLoader \<lparr>intent = None, steps = replicate 3 ''s''\<rparr>
             (2275256061744469 / 2 ^ 46)) ! 0)"
    unfolding row_done [OF m] by (simp add: threshold_values)
  have d: "\<not> (2275256061744469 / 2 ^ 46 :: real)
         \<ge> (real (0 + 1) / real (length (replicate 3 ''s''))) * 100 - 1"
    by simp
  from a b c d threshold_values(1) threshold_values(3) show ?thesis by blast
qed

text \<open>
  C4, amended. For a plan with N steps (N at least 1) and any progress value, the loader
  shows one row per step, and the row of step i (counted from 0) is marked done exactly
  when progress >= t, where t is ((i+1)/N)*100 - 1 as binary64 arithmetic computes it,
  each operation rounded to the nearest double. That t is within 2^-44 of the exact
  value, so for every progress value farther than 2^-44 from the exact threshold the
  step is marked done exactly when progress >= ((i+1)/N)*100 - 1. With four steps and
  progress 60, steps 0 and 1 are done and steps 2 and 3 are not.
\<close>

theorem step_done_rule:
  "(\<forall>i < length (steps p).
       (fst (lv_rows (ClaudeLoader p pr) ! i)
          \<longleftrightarrow> pr \<ge> val (step_threshold (length (steps p)) i))
     \<and> \<bar>val (step_threshold (length (steps p)) i)
          - ((real (i + 1) / real (length (steps p))) * 100 - 1)\<bar> \<le> 1 / 2 ^ 44
     \<and> (\<bar>pr - ((real (i + 1) / real (length (steps p))) * 100 - 1)\<bar> > 1 / 2 ^ 44 \<longrightarrow>
          (fst (lv_rows (ClaudeLoader p pr) ! i)
             \<longleftrightarrow> pr \<ge> (real (i + 1) / real (length (steps p))) * 100 - 1)))
   \<and> length (lv_rows (ClaudeLoader p pr)) = length (steps p)
   \<and> map fst (lv_rows (ClaudeLoader \<lparr>intent = it, steps = [a, b, c, d]\<rparr> 60))
       = [True, True, False, False]"
proof -
  have "(fst (lv_rows (ClaudeLoader p pr) ! i)
          \<longleftrightarrow> pr \<ge> val (step_threshold (length (steps p)) i))
     \<and> \<bar>val (step_threshold (length (steps p)) i)
          - ((real (i + 1) / real (length (steps p))) * 100 - 1)\<bar> \<le> 1 / 2 ^ 44
     \<and> (\<bar>pr - ((real (i + 1) / real (length (steps p))) * 100 - 1)\<bar> > 1 / 2 ^ 44 \<longrightarrow>
          (fst (lv_rows (ClaudeLoader p pr) ! i)
             \<longleftrightarrow> pr \<ge> (real (i + 1) / real (length (steps p))) * 100 - 1))"
    if i: "i < length (steps p)" for i
    using row_done [OF i, of pr] step_threshold_close [OF i] threshold_far [OF i, of pr]
    by blast
  moreover have "length (lv_rows (ClaudeLoader p pr)) = length (steps p)"
    by (simp add: ClaudeLoader_def step_rows_def)
  moreover have "map fst (lv_rows (ClaudeLoader \<lparr>intent = it, steps = [a, b, c, d]\<rparr> 60))
       = [True, True, False, False]"
  proof -
    have l: "length [a, b, c, d] = 4" by simp
    have u: "[0 ..< 4] = [0, Suc 0, 2, 3]" by (simp add: upt_rec)
    show ?thesis
      unfolding ClaudeLoader_def step_rows_def
      by (simp add: l u four_steps_at_60 del: list.size)
  qed
  ultimately show ?thesis by blast
qed

theorem step_done_rule_witness:
  "fst (lv_rows (ClaudeLoader \<lparr>intent = None, steps = [''a'', ''b'', ''c'', ''d'']\<rparr> 60) ! 0)
   \<and> \<not> fst (lv_rows (ClaudeLoader \<lparr>intent = None, steps = [''a'', ''b'', ''c'', ''d'']\<rparr> 60) ! 2)"
proof -
  let ?P = "\<lparr>intent = None, steps = [''a'', ''b'', ''c'', ''d'']\<rparr>"
  note th = step_done_rule [of ?P 60 None "''a''" "''b''" "''c''" "''d''",
      THEN conjunct1, rule_format, THEN conjunct2, THEN conjunct2, rule_format]
  have l0: "0 < length (steps ?P)" and l2: "2 < length (steps ?P)" by simp_all
  have f0: "\<bar>60 - ((real (0 + 1) / real (length (steps ?P))) * 100 - 1)\<bar> > 1 / 2 ^ 44"
    and f2: "\<bar>60 - ((real (2 + 1) / real (length (steps ?P))) * 100 - 1)\<bar> > 1 / 2 ^ 44"
    by simp_all
  from th [OF l0 f0] have a: "fst (lv_rows (ClaudeLoader ?P 60) ! 0)" by simp
  from th [OF l2 f2] have b: "\<not> fst (lv_rows (ClaudeLoader ?P 60) ! 2)" by simp
  from a b show ?thesis by blast
qed

section \<open>Progress\<close>

text \<open>
  C3, as the claim states it, fails: the progress listener stores the number it received,
  so after a progress event carrying 150 the progress of the run state is 150, outside
  [0,100]; and the step rows are computed from the stored number, not from a clamped one:
  with 100 steps and progress -1/2 step 0 is not done, though it is at the clamped value 0.
\<close>

theorem progress_state_clamped_counterexample:
  "progress (deliver 6 0 (ProgressEvent (Some 150)) running) = 150
   \<and> \<not> progress (deliver 6 0 (ProgressEvent (Some 150)) running) \<le> 100
   \<and> \<not> fst (lv_rows (ClaudeLoader \<lparr>intent = None, steps = replicate 100 ''s''\<rparr> (- 1 / 2)) ! 0)
   \<and> step_done 100 0 (max 0 (min 100 (- 1 / 2)))"
proof -
  have "progress (deliver 6 0 (ProgressEvent (Some 150)) running) = 150"
    by (simp add: deliver_def running_facts)
  moreover have
    "\<not> fst (lv_rows (ClaudeLoader \<lparr>intent = None, steps = replicate 100 ''s''\<rparr> (- 1 / 2)) ! 0)"
    by (simp add: ClaudeLoader_def step_rows_def step_done_def or_zero_id threshold_values)
  moreover have "step_done 100 0 (max 0 (min 100 (- 1 / 2)))"
    by (simp add: step_done_def or_zero_id threshold_values)
  ultimately show ?thesis by simp
qed

text \<open>
  C3, amended. A progress event carrying the number p sets the progress of the run state
  to p as it is, whatever p is. The percentage the loader displays is computed from the
  stored number by clamping it into [0,100] and rounding, so the displayed percentage is
  always in [0,100].
\<close>

theorem progress_display_clamped:
  "on_event dnow i h (ProgressEvent (Some p)) s = Inr (s\<lparr>progress := p\<rparr>)
   \<and> 0 \<le> lv_percent (ClaudeLoader pl (progress (s\<lparr>progress := p\<rparr>)))
   \<and> lv_percent (ClaudeLoader pl (progress (s\<lparr>progress := p\<rparr>))) \<le> 100
   \<and> lv_percent (ClaudeLoader pl p) = toFixed0 (if p < 0 then 0 else if p > 100 then 100 else p)"
  using displayed_pct_range [of p]
  by (auto simp add: ClaudeLoader_def displayed_pct_def or_zero_def max_def min_def)

section \<open>Deleting a session\<close>

text \<open>
  C9, as the claim states it, fails for a session list in which a session has the empty
  string as its id. The new selection is \<open>sessions.find(s => s.id !== id)?.id || null\<close>,
  and \<open>||\<close> turns the empty id into none: the application starts from the stored list
  \<open>blank_id_sessions\<close> (the stored list is used as it was parsed), the first session is
  selected, and deleting it leaves the other session in the list and nothing selected.
\<close>

theorem delete_blank_id_counterexample:
  "currentId (init blank_id_sessions) = Some ''a''
   \<and> length (sessions (deleteSession ''a'' (init blank_id_sessions))) = 1
   \<and> sid (sessions (deleteSession ''a'' (init blank_id_sessions)) ! 0) \<noteq> ''a''
   \<and> currentId (deleteSession ''a'' (init blank_id_sessions)) = None"
  by (simp add: deleteSession_def init_def blank_id_sessions_def id_or_null_def truthy_def)

text \<open>
  C9, amended. For every session list whose ids are non-empty strings (as every id made
  by \<open>uid\<close> is) and every session id i: when the session with the id i is the selected
  one, deleting i removes every session with that id from the list and keeps the others;
  if no session remains the selection becomes none, and otherwise it becomes the id of
  a session that remains.
\<close>

theorem delete_selected_session:
  assumes "currentId s = Some i" and "\<forall>x \<in> set (sessions s). truthy (sid x)"
  shows "sessions (deleteSession i s) = filter (\<lambda>x. sid x \<noteq> i) (sessions s)
    \<and> (\<forall>x \<in> set (sessions (deleteSession i s)). sid x \<noteq> i)
    \<and> (sessions (deleteSession i s) = [] \<longrightarrow> currentId (deleteSession i s) = None)
    \<and> (sessions (deleteSession i s) \<noteq> [] \<longrightarrow>
         (\<exists>x \<in> set (sessions (deleteSession i s)). currentId (deleteSession i s) = Some (sid x)))"
proof -
  let ?ys = "filter (\<lambda>x. sid x \<noteq> i) (sessions s)"
  have l: "sessions (deleteSession i s) = ?ys"
    by (simp add: deleteSession_def)
  have c: "currentId (deleteSession i s) = id_or_null (find (\<lambda>x. sid x \<noteq> i) (sessions s))"
    using assms(1) by (simp add: deleteSession_def)
  have e: "?ys = [] \<longrightarrow> currentId (deleteSession i s) = None"
    by (simp add: c find_as_filter id_or_null_def)
  have n: "?ys \<noteq> [] \<longrightarrow> (\<exists>x \<in> set ?ys. currentId (deleteSession i s) = Some (sid x))"
  proof
    assume "?ys \<noteq> []"
    then obtain y zs where yz: "?ys = y # zs" by (cases ?ys) auto
    then have "y \<in> set ?ys" by simp
    then have "y \<in> set (sessions s)" by simp
    with assms(2) have "truthy (sid y)" by blast
    then have "currentId (deleteSession i s) = Some (sid y)"
      by (simp add: c find_as_filter yz id_or_null_def)
    with \<open>y \<in> set ?ys\<close> show "\<exists>x \<in> set ?ys. currentId (deleteSession i s) = Some (sid x)"
      by blast
  qed
  show ?thesis using l e n by auto
qed

theorem delete_selected_session_witness:
  "currentId (init two_sessions) = Some ''a''
   \<and> truthy ''a'' \<and> truthy ''b''
   \<and> map sid (sessions (deleteSession ''a'' (init two_sessions))) = [''b'']
   \<and> currentId (deleteSession ''a'' (init two_sessions)) = Some ''b''"
proof -
  have a: "currentId (init two_sessions) = Some ''a''"
    by (simp add: init_def two_sessions_def id_or_null_def truthy_def)
  have b: "\<forall>x \<in> set (sessions (init two_sessions)). truthy (sid x)"
    by (simp add: init_def two_sessions_def truthy_def)
  have t: "truthy ''a'' \<and> truthy ''b''"
    by (simp add: truthy_def)
  have e: "sessions (deleteSession ''a'' (init two_sessions)) =
     [\<lparr>sid = ''b'', title = ''B'', s_mode = Thorough, messages = [], trace = Some [],
       createdAt = 1\<rparr>]"
    by (simp add: deleteSession_def init_def two_sessions_def)
  have "sessions (deleteSession ''a'' (init two_sessions)) \<noteq> [] \<longrightarrow>
         (\<exists>x \<in> set (sessions (deleteSession ''a'' (init two_sessions))).
            currentId (deleteSession ''a'' (init two_sessions)) = Some (sid x))"
    using delete_selected_session [OF a b] by (elim conjE)
  then have c: "currentId (deleteSession ''a'' (init two_sessions)) = Some ''b''"
    unfolding e by simp
  from a t c show ?thesis
    by (simp add: e)
qed

section \<open>Events for a session that is gone\<close>

text \<open>
  C10. When no session of the list has the id i, appending a trace event to i changes
  nothing at all, and every listener of a run owned by i, called with an event whose
  payload parses (a final event among them), returns without an error and leaves the
  session list as it was.
\<close>

theorem append_to_absent_session:
  assumes "i \<notin> sid ` set (sessions s)"
  shows "appendTrace i ev s = s
    \<and> (\<forall>e. e \<noteq> Malformed \<longrightarrow>
          (\<exists>s'. on_event dnow i h e s = Inr s' \<and> sessions s' = sessions s))"
proof -
  have t: "\<And>v. appendTrace i v s = s" using assms by (rule appendTrace_absent)
  have t2: "\<And>v r. i \<notin> sid ` set (sessions r) \<Longrightarrow> sessions (appendTrace i v r) = sessions r"
    by (simp add: appendTrace_absent)
  have "\<exists>s'. on_event dnow i h e s = Inr s' \<and> sessions s' = sessions s" if "e \<noteq> Malformed" for e
  proof (cases e)
    case (FinalEvent answer cits)
    then show ?thesis
      using assms by (simp add: map_with_uid_absent Let_def)
  next
    case Malformed
    with that show ?thesis by simp
  qed (use assms in \<open>simp_all add: t2 Let_def split: option.splits\<close>)
  with t show ?thesis by blast
qed

theorem append_to_absent_session_witness:
  "''m_5_0'' \<notin> sid ` set (sessions (deleteSession ''m_5_0'' running))
   \<and> st_owner (streams (deleteSession ''m_5_0'' running) ! 0) = ''m_5_0''
   \<and> appendTrace ''m_5_0'' stopped_event (deleteSession ''m_5_0'' running)
       = deleteSession ''m_5_0'' running
   \<and> (\<exists>s'. on_event 6 ''m_5_0'' 0 (FinalEvent ''X'' (Some [''https://a'']))
              (deleteSession ''m_5_0'' running) = Inr s'
            \<and> sessions s' = sessions (deleteSession ''m_5_0'' running))"
proof -
  have "set (map sid (sessions running)) = {''m_5_0''}"
    unfolding running_facts(1) by simp
  then have "\<forall>x \<in> set (sessions running). sid x = ''m_5_0''"
    by auto
  then have "sessions (deleteSession ''m_5_0'' running) = []"
    by (simp add: deleteSession_def filter_empty_conv)
  then have a: "''m_5_0'' \<notin> sid ` set (sessions (deleteSession ''m_5_0'' running))"
    by simp
  have b: "st_owner (streams (deleteSession ''m_5_0'' running) ! 0) = ''m_5_0''"
    by (simp add: deleteSession_def running_facts)
  have c: "FinalEvent ''X'' (Some [''https://a'']) \<noteq> Malformed" by simp
  from a b c append_to_absent_session [OF a, of stopped_event 6 0] show ?thesis
    by blast
qed

section \<open>Stopping\<close>

lemma stopRun_refs:
  "esRef (stopRun s) = None"
  "runIdRef (stopRun s) = runIdRef s"
  "timerRef (stopRun s) = timerRef s"
  "status (stopRun s) = Stopped"
  by (simp_all add: stopRun_def Let_def stopTimer_def close_es_def appendTrace_def
      split: option.splits)

lemma intervals_stopRun:
  "intervals (stopRun s) =
     (case timerRef s of None \<Rightarrow> intervals s | Some t \<Rightarrow> (intervals s)[t := False])"
  by (simp add: stopRun_def Let_def stopTimer_def close_es_def appendTrace_def
      split: option.splits)

lemma close_es_none: "esRef r = None \<Longrightarrow> close_es r = r"
  by (simp add: close_es_def)

lemma stopTimer_stopRun: "stopTimer (stopRun s) = stopRun s"
proof (cases "timerRef s")
  case None
  then show ?thesis by (simp add: stopTimer_def stopRun_refs)
next
  case (Some t)
  then have "(intervals (stopRun s))[t := False] = intervals (stopRun s)"
    by (simp add: intervals_stopRun)
  with Some show ?thesis by (simp add: stopTimer_def stopRun_refs)
qed

lemma status_fix: "status r = v \<Longrightarrow> r\<lparr>status := v\<rparr> = r"
  by auto

lemma stopRun_again:
  "stopRun (stopRun s) =
     (case runIdRef s of
        None \<Rightarrow> stopRun s
      | Some i \<Rightarrow> if truthy i then appendTrace i stopped_event (stopRun s) else stopRun s)"
proof -
  have 1: "close_es (stopRun s) = stopRun s"
    by (simp add: close_es_none stopRun_refs)
  have 3: "(stopRun s)\<lparr>status := Stopped\<rparr> = stopRun s"
    by (simp add: status_fix stopRun_refs)
  have "stopRun (stopRun s) =
     (case runIdRef (stopRun s) of
        None \<Rightarrow> stopRun s
      | Some i \<Rightarrow> if truthy i then appendTrace i stopped_event (stopRun s) else stopRun s)"
    by (subst stopRun_def) (simp only: 1 stopTimer_stopRun 3 Let_def stopped_event_def)
  then show ?thesis by (simp only: stopRun_refs)
qed
text \<open>
  C2, as the claim states it, fails. While a run is thinking, a second call of \<open>stopRun\<close>
  changes the state again: the session of the run then holds two stop events in its trace
  instead of one. And with no run at all (the initial state) a call is not a no-op: it
  turns the status from idle to stopped.
\<close>

theorem stop_idempotent_counterexample:
  "map trace (sessions (stopRun running)) = [Some [stopped_event]]
   \<and> map trace (sessions (stopRun (stopRun running))) = [Some [stopped_event, stopped_event]]
   \<and> stopRun (stopRun running) \<noteq> stopRun running
   \<and> status (init []) = Idle \<and> esRef (init []) = None \<and> status (stopRun (init [])) = Stopped
   \<and> stopRun (init []) \<noteq> init []"
proof -
  have a: "map trace (sessions (stopRun running)) = [Some [stopped_event]]"
    by (simp add: running_def asked_def op_defs text_defs stopped_event_def)
  have b: "map trace (sessions (stopRun (stopRun running))) = [Some [stopped_event, stopped_event]]"
    by (simp add: running_def asked_def op_defs text_defs stopped_event_def)
  have c: "stopRun (stopRun running) \<noteq> stopRun running"
  proof
    assume "stopRun (stopRun running) = stopRun running"
    then have "map trace (sessions (stopRun (stopRun running))) = map trace (sessions (stopRun running))"
      by simp
    then show False unfolding a b by simp
  qed
  have d: "status (init []) = Idle \<and> esRef (init []) = None" by (simp add: init_def)
  have e: "status (stopRun (init [])) = Stopped" by (rule stopRun_refs(4))
  have f: "stopRun (init []) \<noteq> init []"
  proof
    assume "stopRun (init []) = init []"
    then have "status (stopRun (init [])) = status (init [])" by simp
    then show False using d e by simp
  qed
  from a b c d e f show ?thesis by blast
qed

text \<open>
  C2, amended. \<open>stopRun\<close> is called from two places, both gated on the status being
  thinking: the Stop button and the Escape key. Through them stop is idempotent: when no
  run is thinking they change nothing, and done twice they give the state that doing them
  once gives, since the first call sets the status to stopped. \<open>stopRun\<close> itself always
  sets the status to stopped, and a second call in a row changes neither the status, nor
  the stream, nor the timers again; it only appends one more stop event to the trace of
  the session of the last run.
\<close>

theorem stop_gated_idempotent:
  "clickStop (clickStop s) = clickStop s
   \<and> onKey key (onKey key s) = onKey key s
   \<and> (status s \<noteq> Thinking \<longrightarrow> clickStop s = s \<and> onKey key s = s)
   \<and> status (stopRun s) = Stopped
   \<and> stopRun (stopRun s) =
       (case runIdRef s of
          None \<Rightarrow> stopRun s
        | Some i \<Rightarrow> if truthy i then appendTrace i stopped_event (stopRun s) else stopRun s)"
  using stopRun_again [of s]
  by (simp add: clickStop_def onKey_def stopRun_refs)

theorem stop_gated_idempotent_witness:
  "status (init []) = Idle \<and> clickStop (init []) = init [] \<and> onKey ''Escape'' (init []) = init []
   \<and> status running = Thinking \<and> clickStop (clickStop running) = clickStop running"
proof -
  have a: "status (init []) = Idle" by (simp add: init_def)
  then have b: "status (init []) \<noteq> Thinking" by simp
  have "status (init []) \<noteq> Thinking \<longrightarrow> clickStop (init []) = init [] \<and> onKey ''Escape'' (init []) = init []"
    using stop_gated_idempotent [of "init []" "''Escape''"] by (elim conjE)
  with b have c: "clickStop (init []) = init [] \<and> onKey ''Escape'' (init []) = init []"
    by blast
  have d: "clickStop (clickStop running) = clickStop running"
    using stop_gated_idempotent [of running "''Escape''"] by (elim conjE)
  from a c d running_facts(3) show ?thesis by blast
qed

section \<open>Loading and saving\<close>




section \<open>Submitting\<close>

lemma asked_facts:
  "timeouts asked = [\<lparr>db_text = ''waht is ai'', db_due = 300, db_pending = True\<rparr>]"
  "requests asked = []" "suggestion asked = []" "question asked = ''waht is ai''"
  "autoCorrectOn asked" "sessions asked = []" "currentId asked = None"
  "suggestTimerRef asked = Some 0"
  by (simp_all add: asked_def op_defs text_defs)

lemma suggested_facts:
  "suggestion suggested = ''what is ai''"
  "map rq_text (requests suggested) = [''waht is ai'']"
  "question suggested = ''waht is ai''"
  "map db_pending (timeouts suggested) = [False]"
  by (simp_all add: suggested_def run_timers_def asked_facts fire_debounce_def fetch_done_def
      Let_def js_trim_def is_space_def truthy_def)

lemma typed_on_facts:
  "suggestion typed_on = ''what is ai''"
  "map rq_text (requests typed_on) = [''waht is ai'']"
  "trim (question typed_on) = ''waht is ai and ml''"
  "autoCorrectOn typed_on"
  "map db_pending (timeouts typed_on) = [False, True]"
  by (simp_all add: typed_on_def type_at_def run_timers_def suggested_def asked_facts fire_debounce_def fetch_done_def
      Let_def onChange_def requestAutocorrect_def text_defs)

lemma resent_facts:
  "map (map content \<circ> messages) (sessions resent) = [[''what is ai'']]"
  "ac resent = Some \<lparr>original = ''waht is ai and ml'', corrected = ''what is ai''\<rparr>"
  "map st_question (streams resent) = [''what is ai'']"
  by (simp_all add: resent_def typed_on_def type_at_def run_timers_def suggested_def asked_def op_defs text_defs)

lemma startTimer_keeps [simp]:
  "sessions (startTimer p s) = sessions s" "runIdRef (startTimer p s) = runIdRef s"
  "ac (startTimer p s) = ac s" "suggestion (startTimer p s) = suggestion s"
  "streams (startTimer p s) = streams s" "esRef (startTimer p s) = esRef s"
  by (simp_all add: startTimer_def Let_def split: option.splits)

lemma close_es_keeps [simp]:
  "sessions (close_es s) = sessions s" "runIdRef (close_es s) = runIdRef s"
  "ac (close_es s) = ac s" "suggestion (close_es s) = suggestion s"
  "intervals (close_es s) = intervals s" "timerRef (close_es s) = timerRef s"
  by (simp_all add: close_es_def split: option.splits)

lemma ensureSession_keeps:
  assumes "ensureSession dnow q s = (i, s2)"
  shows "ac s2 = ac s" "suggestion s2 = suggestion s" "streams s2 = streams s"
    "esRef s2 = esRef s" "intervals s2 = intervals s" "timerRef s2 = timerRef s"
  using assms
  by (auto simp add: ensureSession_def Let_def uid_def split: option.splits)

lemma ensureSession_member:
  assumes "ensureSession dnow q s = (i, s2)"
  shows "i \<in> sid ` set (sessions s2)"
proof (cases "current s")
  case None
  with assms show ?thesis
    by (auto simp add: ensureSession_def Let_def uid_def)
next
  case (Some x)
  then have "x \<in> set (sessions s)"
    by (auto simp add: current_def find_Some_iff split: option.splits)
  with assms Some show ?thesis
    by (auto simp add: ensureSession_def)
qed

lemma map_with_uid_shape:
  assumes "\<And>m x. sid (f m x) = sid x"
  shows "map sid (fst (map_with_uid dnow f i c xs)) = map sid xs
    \<and> (\<forall>y \<in> set (fst (map_with_uid dnow f i c xs)). sid y = i \<longrightarrow> (\<exists>m x. y = f m x))"
proof (induction xs arbitrary: c)
  case Nil
  then show ?case by simp
next
  case (Cons x xs)
  show ?case
  proof (cases "sid x = i")
    case True
    obtain m c1 where u: "uid dnow c = (m, c1)" by (cases "uid dnow c")
    obtain ys c2 where r: "map_with_uid dnow f i c1 xs = (ys, c2)"
      by (cases "map_with_uid dnow f i c1 xs")
    from Cons [of c1] r have "map sid ys = map sid xs
       \<and> (\<forall>y \<in> set ys. sid y = i \<longrightarrow> (\<exists>m x. y = f m x))" by simp
    with True u r assms show ?thesis by auto
  next
    case False
    obtain ys c2 where r: "map_with_uid dnow f i c xs = (ys, c2)"
      by (cases "map_with_uid dnow f i c xs")
    from Cons [of c] r have "map sid ys = map sid xs
       \<and> (\<forall>y \<in> set ys. sid y = i \<longrightarrow> (\<exists>m x. y = f m x))" by simp
    with False r assms show ?thesis by auto
  qed
qed

text \<open>
  C8, as the claim states it, fails. A suggestion arrived for the text "waht is ai"; the
  user typed on to "waht is ai and ml", for which no request was ever issued, and
  submitted. The message sent is the suggestion for the other text, and a correction
  record is produced, although no suggestion exists for the exact text submitted.
\<close>

theorem submit_stale_suggestion_counterexample:
  "trim (question typed_on) = ''waht is ai and ml''
   \<and> map rq_text (requests typed_on) = [''waht is ai'']
   \<and> suggestion typed_on = ''what is ai''
   \<and> map (map content \<circ> messages) (sessions resent) = [[''what is ai'']]
   \<and> map st_question (streams resent) = [''what is ai'']
   \<and> ac resent = Some \<lparr>original = ''waht is ai and ml'', corrected = ''what is ai''\<rparr>"
  by (intro conjI typed_on_facts resent_facts)

text \<open>
  C8, amended. On submit with a non-empty trimmed text: if autocorrect is enabled and the
  suggestion currently shown is non-empty and differs from the trimmed text, whichever
  text that suggestion was requested for, then the effective query is the suggestion and
  the applied-correction record {original = trimmed text, corrected = suggestion} is
  produced; otherwise the effective query is the trimmed text and there is no record. In
  both cases the pending suggestion is cleared, the stream is opened for the effective
  query, and the session of the run ends with a user message whose content is the
  effective query.
\<close>

theorem submit_applies_shown_suggestion:
  assumes "truthy (trim (question s))"
  shows "(let raw = trim (question s);
              corr = (autoCorrectOn s \<and> truthy (suggestion s) \<and> suggestion s \<noteq> raw);
              q = (if corr then suggestion s else raw);
              s' = send dnow pnow s
          in ac s' = (if corr then Some \<lparr>original = raw, corrected = suggestion s\<rparr> else None)
           \<and> suggestion s' = []
           \<and> st_question (last (streams s')) = q
           \<and> (\<exists>i. runIdRef s' = Some i \<and> i \<in> sid ` set (sessions s')
                \<and> (\<forall>x \<in> set (sessions s'). sid x = i \<longrightarrow>
                      messages x \<noteq> [] \<and> role (last (messages x)) = User
                      \<and> content (last (messages x)) = q)))"
proof -
  define raw where "raw = trim (question s)"
  define corr where "corr \<longleftrightarrow> autoCorrectOn s \<and> truthy (suggestion s) \<and> suggestion s \<noteq> raw"
  define q where "q = (if corr then suggestion s else raw)"
  define s1 where "s1 = s\<lparr>ac := (if corr then Some \<lparr>original = raw, corrected = suggestion s\<rparr> else None),
                      suggestion := []\<rparr>"
  define F where "F = (\<lambda>m (x::session). x\<lparr>title := (if length (messages x) \<noteq> 0 then title x else titleOf q),
                                     messages := messages x @
                                       [\<lparr>mid = m, role = User, content = q, citations = None\<rparr>],
                                     trace := Some []\<rparr>)"
  obtain i s2 where es: "ensureSession dnow q s1 = (i, s2)"
    by (cases "ensureSession dnow q s1")
  obtain xs c where mw: "map_with_uid dnow F i (uidCounter s2) (sessions s2) = (xs, c)"
    by (cases "map_with_uid dnow F i (uidCounter s2) (sessions s2)")
  define s6 where "s6 = close_es (startTimer pnow
        (s2\<lparr>runIdRef := Some i, sessions := xs, uidCounter := c, question := [],
            status := Thinking, elapsed := 0, plan := \<lparr>intent = None, steps = []\<rparr>,
            progress := 0, statusLine := []\<rparr>))"
  have snd: "send dnow pnow s =
      s6\<lparr>streams := streams s6 @ [\<lparr>st_owner = i, st_question = q, st_mode = mode s, st_open = True\<rparr>],
         esRef := Some (length (streams s6))\<rparr>"
  proof (cases corr)
    case True
    have qs: "q = suggestion s" using True by (simp add: q_def)
    have s1s: "s1 = s\<lparr>ac := Some \<lparr>original = trim (question s), corrected = suggestion s\<rparr>,
                      suggestion := []\<rparr>"
      using True by (simp add: s1_def raw_def)
    from True have C: "autoCorrectOn s \<and> truthy (suggestion s) \<and> suggestion s \<noteq> trim (question s)"
      by (simp add: corr_def raw_def)
    then have sel: "\<And>a b :: string. (if autoCorrectOn s \<and> truthy (suggestion s)
          \<and> suggestion s \<noteq> trim (question s) then a else b) = a"
      and sel': "\<And>a b :: correction option. (if autoCorrectOn s \<and> truthy (suggestion s)
          \<and> suggestion s \<noteq> trim (question s) then a else b) = a"
      by simp_all
    show ?thesis
      using assms es [unfolded qs s1s] mw [unfolded F_def qs]
      unfolding send_def Let_def s6_def qs sel sel' by simp
  next
    case False
    have qs: "q = trim (question s)" using False by (simp add: q_def raw_def)
    have s1s: "s1 = s\<lparr>ac := None, suggestion := []\<rparr>"
      using False by (simp add: s1_def)
    from False have C: "\<not> (autoCorrectOn s \<and> truthy (suggestion s) \<and> suggestion s \<noteq> trim (question s))"
      by (simp add: corr_def raw_def)
    have sel: "\<And>a b :: string. (if autoCorrectOn s \<and> truthy (suggestion s)
          \<and> suggestion s \<noteq> trim (question s) then a else b) = b"
      by (rule if_not_P) (rule C)
    have sel': "\<And>a b :: correction option. (if autoCorrectOn s \<and> truthy (suggestion s)
          \<and> suggestion s \<noteq> trim (question s) then a else b) = b"
      by (rule if_not_P) (rule C)
    show ?thesis
      using assms es [unfolded qs s1s] mw [unfolded F_def qs]
      unfolding send_def Let_def s6_def qs sel sel' by simp
  qed
  have a: "ac (send dnow pnow s) = (if corr then Some \<lparr>original = raw, corrected = suggestion s\<rparr> else None)"
    by (simp add: snd s6_def ensureSession_keeps [OF es] s1_def)
  have b: "suggestion (send dnow pnow s) = []"
    by (simp add: snd s6_def ensureSession_keeps [OF es] s1_def)
  have c: "st_question (last (streams (send dnow pnow s))) = q"
    by (simp add: snd)
  have d: "runIdRef (send dnow pnow s) = Some i"
    by (simp add: snd s6_def)
  have e: "sessions (send dnow pnow s) = xs"
    by (simp add: snd s6_def)
  have sidF: "\<And>m x. sid (F m x) = sid x" by (simp add: F_def)
  from map_with_uid_shape [of F dnow i "uidCounter s2" "sessions s2", OF sidF] mw
  have sh: "map sid xs = map sid (sessions s2)"
    and fm: "\<forall>y \<in> set xs. sid y = i \<longrightarrow> (\<exists>m x. y = F m x)" by simp_all
  have "set (map sid xs) = set (map sid (sessions s2))" by (simp only: sh)
  then have f: "i \<in> sid ` set xs"
    using ensureSession_member [OF es] by simp
  have g: "\<forall>x \<in> set xs. sid x = i \<longrightarrow>
             messages x \<noteq> [] \<and> role (last (messages x)) = User \<and> content (last (messages x)) = q"
  proof (intro ballI impI)
    fix x assume "x \<in> set xs" "sid x = i"
    with fm obtain m y where "x = F m y" by blast
    then show "messages x \<noteq> [] \<and> role (last (messages x)) = User \<and> content (last (messages x)) = q"
      by (simp add: F_def)
  qed
  from a b c d e f g show ?thesis
    unfolding Let_def raw_def [symmetric] corr_def [symmetric] q_def [symmetric]
    by (simp add: raw_def [symmetric] corr_def [symmetric] q_def [symmetric])
qed

theorem submit_applies_shown_suggestion_witness:
  "truthy (trim (question typed_on))
   \<and> autoCorrectOn typed_on \<and> suggestion typed_on = ''what is ai''
   \<and> ac (send 5 0 typed_on) = Some \<lparr>original = ''waht is ai and ml'', corrected = ''what is ai''\<rparr>
   \<and> suggestion (send 5 0 typed_on) = []
   \<and> st_question (last (streams (send 5 0 typed_on))) = ''what is ai''"
proof -
  have h: "truthy (trim (question typed_on))"
    by (simp add: typed_on_facts truthy_def)
  note th = submit_applies_shown_suggestion [OF h, of 5 0, unfolded Let_def]
  from typed_on_facts h th show ?thesis
    by (simp add: truthy_def)
qed

section \<open>Autocorrect requests\<close>

lemma overlap_facts:
  "map rq_text (requests overlap1) = [''waht'', ''waht is'']"
  "map rq_inflight (requests overlap1) = [True, True]"
  "requests overlap1 = [\<lparr>rq_text = ''waht'', rq_inflight = True\<rparr>,
      \<lparr>rq_text = ''waht is'', rq_inflight = True\<rparr>]"
  "suggestion (fetch_done 1 (FetchOk (Some ''what is'')) overlap1) = ''what is''"
  "question overlap2 = ''waht is''"
  "suggestion overlap2 = ''what''"
  by (simp_all add: scene_defs op_defs text_defs)

lemma overlap0_facts:
  "autoCorrectOn overlap0" "suggestTimerRef overlap0 = Some 0" "length (timeouts overlap0) = 1"
  "requests overlap0 = []" "db_pending (timeouts overlap0 ! 0)"
  by (simp_all add: scene_defs op_defs text_defs)

lemma short_facts:
  "length (trim ''wa'') = 2"
  "question short0 = ''wa''" "suggestion short0 = []"
  "map db_pending (timeouts short0) = [True]"
  "map rq_text (requests (run_timers 400 short0)) = [''wah'']"
  "question short1 = ''wa''" "suggestion short1 = ''what''"
  "\<not> autoCorrectOn switched_off"
  "map db_pending (timeouts switched_off) = [True]"
  "map rq_text (requests (run_timers 400 switched_off)) = [''waht'']"
  "map rq_text (requests burst3) = [''wah'', ''wah'']"
  by (simp_all add: scene_defs op_defs text_defs)

lemma fetch_done_suggestion:
  "k < length (requests s) \<Longrightarrow> rq_inflight (requests s ! k) \<Longrightarrow>
     suggestion (fetch_done k res s) =
        (case res of
           FetchFailed \<Rightarrow> []
         | FetchOk f \<Rightarrow>
             (let sugg = js_trim (case f of None \<Rightarrow> [] | Some t \<Rightarrow> t)
              in if truthy sugg \<and> sugg \<noteq> js_trim (rq_text (requests s ! k)) then sugg else []))"
  by (simp add: fetch_done_def Let_def split: fetch_result.splits)

lemma fetch_done_requests:
  "requests (fetch_done k r s) =
      (if k < length (requests s) \<and> rq_inflight (requests s ! k)
       then (requests s)[k := (requests s ! k)\<lparr>rq_inflight := False\<rparr>] else requests s)"
  by (simp add: fetch_done_def Let_def split: fetch_result.splits)

text \<open>
  C5, as the claim states it, fails. Two requests are in flight, the first for "waht",
  the second, issued later, for "waht is". The response to the second arrives, then the
  response to the first: the suggestion shown at the end is the one for the superseded
  first request.
\<close>

theorem superseded_result_counterexample:
  "map rq_text (requests overlap1) = [''waht'', ''waht is'']
   \<and> map rq_inflight (requests overlap1) = [True, True]
   \<and> suggestion (fetch_done 1 (FetchOk (Some ''what is'')) overlap1) = ''what is''
   \<and> question overlap2 = ''waht is''
   \<and> suggestion overlap2 = ''what''"
  by (intro conjI overlap_facts)

text \<open>
  C5, amended. A later text change (autocorrect on, at least three characters) cancels
  the debounce timeout that has not fired yet, so that no request is issued for the
  superseded text. Once a request has been issued, its result is applied when it arrives,
  whatever was requested since: the suggestion after a response depends on that response
  and on the text of its own request only, and of two requests in flight the one whose
  response arrives last decides the suggestion shown.
\<close>

theorem response_applied_on_arrival:
  "(k < length (requests s) \<and> rq_inflight (requests s ! k) \<longrightarrow>
      suggestion (fetch_done k res s) =
        (case res of
           FetchFailed \<Rightarrow> []
         | FetchOk f \<Rightarrow>
             (let sugg = js_trim (case f of None \<Rightarrow> [] | Some t \<Rightarrow> t)
              in if truthy sugg \<and> sugg \<noteq> js_trim (rq_text (requests s ! k)) then sugg else [])))
   \<and> (j \<noteq> k \<and> j < length (requests s) \<and> rq_inflight (requests s ! j) \<longrightarrow>
        suggestion (fetch_done j rj (fetch_done k rk s)) = suggestion (fetch_done j rj s))
   \<and> (autoCorrectOn s \<and> length (trim v) \<ge> 3 \<and> suggestTimerRef s = Some h \<and> h < length (timeouts s) \<longrightarrow>
        \<not> db_pending (timeouts (onChange now v s) ! h)
        \<and> fire_debounce h (onChange now v s) = onChange now v s
        \<and> requests (onChange now v s) = requests s)"
proof -
  have a: "k < length (requests s) \<and> rq_inflight (requests s ! k) \<longrightarrow>
      suggestion (fetch_done k res s) =
        (case res of
           FetchFailed \<Rightarrow> []
         | FetchOk f \<Rightarrow>
             (let sugg = js_trim (case f of None \<Rightarrow> [] | Some t \<Rightarrow> t)
              in if truthy sugg \<and> sugg \<noteq> js_trim (rq_text (requests s ! k)) then sugg else []))"
    using fetch_done_suggestion [of k s res] by blast
  have b: "j \<noteq> k \<and> j < length (requests s) \<and> rq_inflight (requests s ! j) \<longrightarrow>
        suggestion (fetch_done j rj (fetch_done k rk s)) = suggestion (fetch_done j rj s)"
  proof
    assume h: "j \<noteq> k \<and> j < length (requests s) \<and> rq_inflight (requests s ! j)"
    let ?s' = "fetch_done k rk s"
    have l: "j < length (requests ?s')" using h by (simp add: fetch_done_requests)
    have n: "requests ?s' ! j = requests s ! j" using h by (simp add: fetch_done_requests)
    with h have f: "rq_inflight (requests ?s' ! j)" by simp
    show "suggestion (fetch_done j rj ?s') = suggestion (fetch_done j rj s)"
      using h by (simp only: fetch_done_suggestion [OF l f] fetch_done_suggestion [of j s rj] n)
  qed
  have c: "autoCorrectOn s \<and> length (trim v) \<ge> 3 \<and> suggestTimerRef s = Some h \<and> h < length (timeouts s) \<longrightarrow>
        \<not> db_pending (timeouts (onChange now v s) ! h)
        \<and> fire_debounce h (onChange now v s) = onChange now v s
        \<and> requests (onChange now v s) = requests s"
    by (simp add: onChange_def requestAutocorrect_def Let_def fire_debounce_def nth_append)
  from a b c show ?thesis by blast
qed

theorem response_applied_on_arrival_witness:
  "map rq_inflight (requests overlap1) = [True, True]
   \<and> suggestion (fetch_done 0 (FetchOk (Some ''what'')) (fetch_done 1 (FetchOk (Some ''what is'')) overlap1))
       = suggestion (fetch_done 0 (FetchOk (Some ''what'')) overlap1)
   \<and> suggestion (fetch_done 0 (FetchOk (Some ''what'')) overlap1) = ''what''
   \<and> autoCorrectOn overlap0 \<and> suggestTimerRef overlap0 = Some 0
   \<and> db_pending (timeouts overlap0 ! 0)
   \<and> fire_debounce 0 (onChange 100 ''waht is'' overlap0) = onChange 100 ''waht is'' overlap0"
proof -
  have i: "map rq_inflight (requests overlap1) = [True, True]" by (rule overlap_facts(2))
  have l: "length (requests overlap1) = 2" by (simp add: overlap_facts(3))
  have f: "rq_inflight (requests overlap1 ! 0)" by (simp add: overlap_facts(3))
  have t: "rq_text (requests overlap1 ! 0) = ''waht''" by (simp add: overlap_facts(3))
  note th1 = response_applied_on_arrival [where k = 0 and s = overlap1
      and res = "FetchOk (Some ''what'')"]
  note th2 = response_applied_on_arrival [where j = 0 and k = 1 and s = overlap1
      and rj = "FetchOk (Some ''what'')" and rk = "FetchOk (Some ''what is'')"]
  note th3 = response_applied_on_arrival [where s = overlap0 and v = "''waht is''"
      and h = 0 and now = 100]
  have a: "suggestion (fetch_done 0 (FetchOk (Some ''what'')) overlap1) = ''what''"
    using th1 f l t by (simp add: js_trim_def is_space_def truthy_def)
  have b: "suggestion (fetch_done 0 (FetchOk (Some ''what'')) (fetch_done 1 (FetchOk (Some ''what is'')) overlap1))
       = suggestion (fetch_done 0 (FetchOk (Some ''what'')) overlap1)"
    using th2 f l by simp
  have "length (trim ''waht is'') \<ge> 3" by (simp add: text_defs)
  then have c: "fire_debounce 0 (onChange 100 ''waht is'' overlap0) = onChange 100 ''waht is'' overlap0"
    using th3 overlap0_facts by simp
  from i a b c overlap0_facts show ?thesis by blast
qed

section \<open>The quiet period\<close>

text \<open>
  C6 at its failing inputs. The user types "wah" and shortens it to "wa" 100ms later: the
  suggestion is cleared, but the timeout set for "wah" stays pending; it fires, a request
  for "wah" is issued, and its result becomes the suggestion shown for the text "wa". The
  same happens when autocorrect is switched off within the quiet period. And the burst
  "wah", "wa", "wah", its changes 200ms apart, issues two requests.
\<close>

theorem short_text_leaves_timeout_pending:
  "length (trim ''wa'') = 2
   \<and> question short0 = ''wa'' \<and> suggestion short0 = []
   \<and> map db_pending (timeouts short0) = [True]
   \<and> map rq_text (requests (run_timers 400 short0)) = [''wah'']
   \<and> question short1 = ''wa'' \<and> suggestion short1 = ''what''
   \<and> \<not> autoCorrectOn switched_off
   \<and> map db_pending (timeouts switched_off) = [True]
   \<and> map rq_text (requests (run_timers 400 switched_off)) = [''waht'']
   \<and> map rq_text (requests burst3) = [''wah'', ''wah'']"
  by (intro conjI short_facts)

section \<open>Starting a run while another is thinking\<close>

lemma appendTrace_handles [simp]:
  "streams (appendTrace i ev s) = streams s" "esRef (appendTrace i ev s) = esRef s"
  "intervals (appendTrace i ev s) = intervals s" "timerRef (appendTrace i ev s) = timerRef s"
  by (simp_all add: appendTrace_def)

lemma stopTimer_handles [simp]:
  "streams (stopTimer s) = streams s" "esRef (stopTimer s) = esRef s"
  "timerRef (stopTimer s) = timerRef s"
  by (simp_all add: stopTimer_def split: option.splits)

lemma intervals_stopTimer:
  "intervals (stopTimer s) =
     (case timerRef s of None \<Rightarrow> intervals s | Some t \<Rightarrow> (intervals s)[t := False])"
  by (simp add: stopTimer_def split: option.splits)

lemma close_es_streams:
  "streams (close_es s) =
     (case esRef s of None \<Rightarrow> streams s | Some h \<Rightarrow> close_stream h (streams s))"
  "esRef (close_es s) = None"
  by (simp_all add: close_es_def split: option.splits)

lemma close_stream_length [simp]: "length (close_stream h xs) = length xs"
  by (simp add: close_stream_def)

lemma close_stream_open:
  "k < length xs \<Longrightarrow> st_open (close_stream h xs ! k) \<longleftrightarrow> st_open (xs ! k) \<and> k \<noteq> h"
  by (auto simp add: close_stream_def nth_list_update)

lemma startTimer_handles:
  "intervals (startTimer p s) = intervals (stopTimer s) @ [True]"
  "timerRef (startTimer p s) = Some (length (intervals s))"
  by (simp_all add: startTimer_def stopTimer_def Let_def split: option.splits)

lemma stopRun_handles:
  "streams (stopRun s) = streams (close_es s)"
  "intervals (stopRun s) = intervals (stopTimer s)"
  by (simp_all add: stopRun_def Let_def close_es_keeps intervals_stopTimer split: option.splits)


lemma send_shape:
  assumes "truthy (trim (question s))"
  shows "\<exists>i q s2 xs c.
     send dnow pnow s =
       (close_es (startTimer pnow
          (s2\<lparr>runIdRef := Some i, sessions := xs, uidCounter := c, question := [],
              status := Thinking, elapsed := 0, plan := \<lparr>intent = None, steps = []\<rparr>,
              progress := 0, statusLine := []\<rparr>)))
       \<lparr>streams := streams (close_es (startTimer pnow
          (s2\<lparr>runIdRef := Some i, sessions := xs, uidCounter := c, question := [],
              status := Thinking, elapsed := 0, plan := \<lparr>intent = None, steps = []\<rparr>,
              progress := 0, statusLine := []\<rparr>))) @
            [\<lparr>st_owner = i, st_question = q, st_mode = mode s, st_open = True\<rparr>],
         esRef := Some (length (streams (close_es (startTimer pnow
          (s2\<lparr>runIdRef := Some i, sessions := xs, uidCounter := c, question := [],
              status := Thinking, elapsed := 0, plan := \<lparr>intent = None, steps = []\<rparr>,
              progress := 0, statusLine := []\<rparr>)))))\<rparr>
     \<and> streams s2 = streams s \<and> esRef s2 = esRef s
     \<and> intervals s2 = intervals s \<and> timerRef s2 = timerRef s"
proof -
  define q where "q = (if autoCorrectOn s \<and> truthy (suggestion s) \<and> suggestion s \<noteq> trim (question s)
      then suggestion s else trim (question s))"
  define s1 where "s1 = s\<lparr>ac := (if autoCorrectOn s \<and> truthy (suggestion s) \<and> suggestion s \<noteq> trim (question s)
      then Some \<lparr>original = trim (question s), corrected = suggestion s\<rparr> else None), suggestion := []\<rparr>"
  obtain i s2 where es: "ensureSession dnow q s1 = (i, s2)"
    by (cases "ensureSession dnow q s1")
  obtain xs c where mw: "map_with_uid dnow
        (\<lambda>m x. x\<lparr>title := (if length (messages x) \<noteq> 0 then title x else titleOf q),
                  messages := messages x @ [\<lparr>mid = m, role = User, content = q, citations = None\<rparr>],
                  trace := Some []\<rparr>)
        i (uidCounter s2) (sessions s2) = (xs, c)"
    by (cases "map_with_uid dnow
        (\<lambda>m x. x\<lparr>title := (if length (messages x) \<noteq> 0 then title x else titleOf q),
                  messages := messages x @ [\<lparr>mid = m, role = User, content = q, citations = None\<rparr>],
                  trace := Some []\<rparr>)
        i (uidCounter s2) (sessions s2)")
  have "send dnow pnow s =
       (close_es (startTimer pnow
          (s2\<lparr>runIdRef := Some i, sessions := xs, uidCounter := c, question := [],
              status := Thinking, elapsed := 0, plan := \<lparr>intent = None, steps = []\<rparr>,
              progress := 0, statusLine := []\<rparr>)))
       \<lparr>streams := streams (close_es (startTimer pnow
          (s2\<lparr>runIdRef := Some i, sessions := xs, uidCounter := c, question := [],
              status := Thinking, elapsed := 0, plan := \<lparr>intent = None, steps = []\<rparr>,
              progress := 0, statusLine := []\<rparr>))) @
            [\<lparr>st_owner = i, st_question = q, st_mode = mode s, st_open = True\<rparr>],
         esRef := Some (length (streams (close_es (startTimer pnow
          (s2\<lparr>runIdRef := Some i, sessions := xs, uidCounter := c, question := [],
              status := Thinking, elapsed := 0, plan := \<lparr>intent = None, steps = []\<rparr>,
              progress := 0, statusLine := []\<rparr>)))))\<rparr>"
    using assms es mw
    unfolding send_def Let_def q_def [symmetric] s1_def [symmetric] by simp
  moreover have "streams s2 = streams s \<and> esRef s2 = esRef s
     \<and> intervals s2 = intervals s \<and> timerRef s2 = timerRef s"
    using ensureSession_keeps [OF es] by (simp add: s1_def)
  ultimately show ?thesis by blast
qed

lemma send_handles:
  assumes "truthy (trim (question s))"
  shows "\<exists>n. streams (send dnow pnow s) = streams (close_es s) @ [n] \<and> st_open n"
    and "esRef (send dnow pnow s) = Some (length (streams s))"
    and "intervals (send dnow pnow s) = intervals (stopTimer s) @ [True]"
    and "timerRef (send dnow pnow s) = Some (length (intervals s))"
proof -
  from send_shape [OF assms, of dnow pnow] obtain i q s2 xs c where
    sh: "send dnow pnow s =
       (close_es (startTimer pnow
          (s2\<lparr>runIdRef := Some i, sessions := xs, uidCounter := c, question := [],
              status := Thinking, elapsed := 0, plan := \<lparr>intent = None, steps = []\<rparr>,
              progress := 0, statusLine := []\<rparr>)))
       \<lparr>streams := streams (close_es (startTimer pnow
          (s2\<lparr>runIdRef := Some i, sessions := xs, uidCounter := c, question := [],
              status := Thinking, elapsed := 0, plan := \<lparr>intent = None, steps = []\<rparr>,
              progress := 0, statusLine := []\<rparr>))) @
            [\<lparr>st_owner = i, st_question = q, st_mode = mode s, st_open = True\<rparr>],
         esRef := Some (length (streams (close_es (startTimer pnow
          (s2\<lparr>runIdRef := Some i, sessions := xs, uidCounter := c, question := [],
              status := Thinking, elapsed := 0, plan := \<lparr>intent = None, steps = []\<rparr>,
              progress := 0, statusLine := []\<rparr>)))))\<rparr>"
    and k: "streams s2 = streams s" "esRef s2 = esRef s"
      "intervals s2 = intervals s" "timerRef s2 = timerRef s"
    by blast
  show "\<exists>n. streams (send dnow pnow s) = streams (close_es s) @ [n] \<and> st_open n"
    by (simp add: sh close_es_streams k split: option.splits)
  show "esRef (send dnow pnow s) = Some (length (streams s))"
    by (simp add: sh close_es_streams k split: option.splits)
  show "intervals (send dnow pnow s) = intervals (stopTimer s) @ [True]"
    by (simp add: sh startTimer_handles intervals_stopTimer k split: option.splits)
  show "timerRef (send dnow pnow s) = Some (length (intervals s))"
    by (simp add: sh startTimer_handles k)
qed


lemma one_open_close_es:
  assumes "one_open s"
  shows "\<forall>h < length (streams s). \<not> st_open (streams (close_es s) ! h)"
  using assms
  by (auto simp add: one_open_def close_es_streams close_stream_open split: option.splits)

lemma one_ticking_stopTimer:
  assumes "one_ticking s"
  shows "\<forall>t < length (intervals s). \<not> intervals (stopTimer s) ! t"
proof (intro allI impI)
  fix t assume t: "t < length (intervals s)"
  from assms t have o: "intervals s ! t \<longrightarrow> timerRef s = Some t"
    by (simp add: one_ticking_def)
  show "\<not> intervals (stopTimer s) ! t"
  proof (cases "timerRef s")
    case None
    with o show ?thesis by (simp add: intervals_stopTimer)
  next
    case (Some x)
    show ?thesis
    proof (cases "t = x")
      case True
      with Some t show ?thesis by (simp add: intervals_stopTimer)
    next
      case False
      with Some o show ?thesis by (simp add: intervals_stopTimer)
    qed
  qed
qed

lemma length_close_es [simp]: "length (streams (close_es s)) = length (streams s)"
  by (simp add: close_es_streams split: option.splits)

lemma length_stopTimer [simp]: "length (intervals (stopTimer s)) = length (intervals s)"
  by (simp add: intervals_stopTimer split: option.splits)

lemma send_closes_previous:
  assumes "one_open s" "one_ticking s" "truthy (trim (question s))"
  shows "(\<forall>h < length (streams s). \<not> st_open (streams (send dnow pnow s) ! h))
    \<and> (\<forall>t < length (intervals s). \<not> intervals (send dnow pnow s) ! t)
    \<and> length (streams (send dnow pnow s)) = Suc (length (streams s))
    \<and> st_open (streams (send dnow pnow s) ! length (streams s))
    \<and> esRef (send dnow pnow s) = Some (length (streams s))
    \<and> length (intervals (send dnow pnow s)) = Suc (length (intervals s))
    \<and> intervals (send dnow pnow s) ! length (intervals s)
    \<and> timerRef (send dnow pnow s) = Some (length (intervals s))"
proof -
  from send_handles(1) [OF assms(3), of dnow pnow] obtain n where
    st: "streams (send dnow pnow s) = streams (close_es s) @ [n]" and n: "st_open n" by blast
  note iv = send_handles(3) [OF assms(3), of dnow pnow]
  show ?thesis
    using one_open_close_es [OF assms(1)] one_ticking_stopTimer [OF assms(2)] n
    by (simp add: st iv send_handles(2,4) [OF assms(3)] nth_append)
qed

lemma send_invariant:
  assumes "one_open s" "one_ticking s"
  shows "one_open (send dnow pnow s) \<and> one_ticking (send dnow pnow s)"
proof (cases "truthy (trim (question s))")
  case False
  then have "send dnow pnow s = s" by (simp add: send_def)
  with assms show ?thesis by simp
next
  case True
  note c = send_closes_previous [OF assms True, of dnow pnow]
  have "one_open (send dnow pnow s)"
    unfolding one_open_def using c by (auto simp add: less_Suc_eq)
  moreover have "one_ticking (send dnow pnow s)"
    unfolding one_ticking_def using c by (auto simp add: less_Suc_eq)
  ultimately show ?thesis by blast
qed

lemma stopRun_invariant:
  assumes "one_open s" "one_ticking s"
  shows "one_open (stopRun s) \<and> one_ticking (stopRun s)"
proof -
  have "one_open (stopRun s)"
    unfolding one_open_def using one_open_close_es [OF assms(1)]
    by (simp add: stopRun_handles)
  moreover have "one_ticking (stopRun s)"
    unfolding one_ticking_def using one_ticking_stopTimer [OF assms(2)]
    by (simp add: stopRun_handles)
  ultimately show ?thesis by blast
qed

lemma on_event_handles:
  assumes "on_event dnow i h ev s = Inr s'"
  shows "esRef s' = esRef s" "timerRef s' = timerRef s"
    "streams s' = streams s \<or> streams s' = close_stream h (streams s)"
    "intervals s' = intervals s \<or> intervals s' = intervals (stopTimer s)"
  using assms
  by (cases ev; auto simp add: Let_def intervals_stopTimer split: prod.splits option.splits)+

lemma quiet_handles [simp]:
  "streams (onChange now v s) = streams s"
  "esRef (onChange now v s) = esRef s"
  "intervals (onChange now v s) = intervals s"
  "timerRef (onChange now v s) = timerRef s"
  "streams (newChat s) = streams s"
  "esRef (newChat s) = esRef s"
  "intervals (newChat s) = intervals s"
  "timerRef (newChat s) = timerRef s"
  "streams (deleteSession i s) = streams s"
  "esRef (deleteSession i s) = esRef s"
  "intervals (deleteSession i s) = intervals s"
  "timerRef (deleteSession i s) = timerRef s"
  "streams (renameSession i name s) = streams s"
  "esRef (renameSession i name s) = esRef s"
  "intervals (renameSession i name s) = intervals s"
  "timerRef (renameSession i name s) = timerRef s"
  "streams (setMode m s) = streams s"
  "esRef (setMode m s) = esRef s"
  "intervals (setMode m s) = intervals s"
  "timerRef (setMode m s) = timerRef s"
  "streams (tick t pnow s) = streams s"
  "esRef (tick t pnow s) = esRef s"
  "intervals (tick t pnow s) = intervals s"
  "timerRef (tick t pnow s) = timerRef s"
  "streams (fire_debounce h s) = streams s"
  "esRef (fire_debounce h s) = esRef s"
  "intervals (fire_debounce h s) = intervals s"
  "timerRef (fire_debounce h s) = timerRef s"
  "streams (fetch_done k res s) = streams s"
  "esRef (fetch_done k res s) = esRef s"
  "intervals (fetch_done k res s) = intervals s"
  "timerRef (fetch_done k res s) = timerRef s"
  "streams (reset_fire s) = streams s"
  "esRef (reset_fire s) = esRef s"
  "intervals (reset_fire s) = intervals s"
  "timerRef (reset_fire s) = timerRef s"
  by (simp_all add: onChange_def requestAutocorrect_def newChat_def deleteSession_def
      renameSession_def setMode_def tick_def fire_debounce_def fetch_done_def reset_fire_def
      Let_def split: option.splits fetch_result.splits)

lemma deliver_invariant:
  assumes "one_open s" "one_ticking s"
  shows "one_open (deliver dnow h ev s) \<and> one_ticking (deliver dnow h ev s)"
proof (cases "h < length (streams s) \<and> st_open (streams s ! h)")
  case False
  then have "deliver dnow h ev s = s" by (auto simp add: deliver_def)
  with assms show ?thesis by simp
next
  case True
  show ?thesis
  proof (cases "on_event dnow (st_owner (streams s ! h)) h ev s")
    case (Inl e)
    with True have "deliver dnow h ev s = s" by (simp add: deliver_def)
    with assms show ?thesis by simp
  next
    case (Inr s')
    with True have d: "deliver dnow h ev s = s'" by (simp add: deliver_def)
    note k = on_event_handles [OF Inr]
    have "one_open s'"
      unfolding one_open_def using assms(1) k(1,3)
      by (auto simp add: one_open_def close_stream_open)
    moreover have "one_ticking s'"
    proof -
      from k(4) show ?thesis
      proof
        assume "intervals s' = intervals s"
        with assms(2) k(2) show ?thesis by (simp add: one_ticking_def)
      next
        assume "intervals s' = intervals (stopTimer s)"
        with one_ticking_stopTimer [OF assms(2)] show ?thesis
          by (simp add: one_ticking_def)
      qed
    qed
    ultimately show ?thesis by (simp add: d)
  qed
qed

lemma step_invariant:
  assumes "one_open s \<and> one_ticking s"
  shows "one_open (step a s) \<and> one_ticking (step a s)"
proof (cases a)
  case (Send dnow pnow)
  with assms show ?thesis by (simp add: send_invariant)
next
  case (KeyDown key)
  with assms show ?thesis by (simp add: onKey_def stopRun_invariant)
next
  case ClickStop
  with assms show ?thesis by (simp add: clickStop_def stopRun_invariant)
next
  case (StreamEvent dnow h ev)
  with assms show ?thesis by (simp add: deliver_invariant)
next
  case UseOriginal
  with assms show ?thesis
    by (cases "ac s") (simp_all add: one_open_def one_ticking_def)
qed (use assms in \<open>simp_all add: one_open_def one_ticking_def\<close>)

lemma run_invariant:
  "one_open s \<and> one_ticking s \<Longrightarrow> one_open (run as s) \<and> one_ticking (run as s)"
  unfolding run_def
proof (induction as arbitrary: s)
  case Nil
  then show ?case by simp
next
  case (Cons a as)
  from step_invariant [OF Cons.prems] have "one_open (step a s) \<and> one_ticking (step a s)" .
  from Cons.IH [OF this] show ?case by simp
qed

lemma init_invariant: "one_open (init loaded) \<and> one_ticking (init loaded)"
  by (simp add: one_open_def one_ticking_def init_def)

lemma stays_closed_refl: "stays_closed xs xs"
  by (simp add: stays_closed_def)

lemma stays_closed_trans: "stays_closed xs ys \<Longrightarrow> stays_closed ys zs \<Longrightarrow> stays_closed xs zs"
  by (auto simp add: stays_closed_def)

lemma stays_closed_close_stream: "stays_closed xs (close_stream h xs)"
  by (simp add: stays_closed_def close_stream_open)

lemma stays_closed_close_es: "stays_closed (streams s) (streams (close_es s))"
  by (simp add: close_es_streams stays_closed_refl stays_closed_close_stream split: option.splits)

lemma stays_closed_snoc: "stays_closed xs ys \<Longrightarrow> stays_closed xs (ys @ [n])"
  by (auto simp add: stays_closed_def nth_append)

lemma step_stays_closed: "stays_closed (streams s) (streams (step a s))"
proof (cases a)
  case (Send dnow pnow)
  show ?thesis
  proof (cases "truthy (trim (question s))")
    case False
    then have "send dnow pnow s = s" by (simp add: send_def)
    with Send show ?thesis by (simp add: stays_closed_refl)
  next
    case True
    from send_handles(1) [OF True, of dnow pnow] obtain n where
      "streams (send dnow pnow s) = streams (close_es s) @ [n]" by blast
    with Send show ?thesis
      by (simp add: stays_closed_snoc stays_closed_close_es)
  qed
next
  case (KeyDown key)
  then show ?thesis
    by (simp add: onKey_def stopRun_handles stays_closed_close_es stays_closed_refl)
next
  case ClickStop
  then show ?thesis
    by (simp add: clickStop_def stopRun_handles stays_closed_close_es stays_closed_refl)
next
  case (StreamEvent dnow h ev)
  show ?thesis
  proof (cases "on_event dnow (st_owner (streams s ! h)) h ev s")
    case (Inl e)
    with StreamEvent show ?thesis by (simp add: deliver_def stays_closed_refl)
  next
    case (Inr s')
    from on_event_handles(3) [OF Inr] have "stays_closed (streams s) (streams s')"
      by (auto simp add: stays_closed_refl stays_closed_close_stream)
    with StreamEvent Inr show ?thesis by (simp add: deliver_def stays_closed_refl)
  qed
next
  case UseOriginal
  then show ?thesis by (simp add: stays_closed_refl split: option.splits)
qed (simp_all add: stays_closed_refl)

lemma run_stays_closed: "stays_closed (streams s) (streams (run as s))"
  unfolding run_def
proof (induction as arbitrary: s)
  case Nil
  then show ?case by (simp add: stays_closed_refl)
next
  case (Cons a as)
  from stays_closed_trans [OF step_stays_closed Cons.IH] show ?case by simp
qed

lemma rerun_facts:
  "esRef rerun = Some 1"
  "map st_open (streams rerun) = [False, True]"
  "map st_owner (streams rerun) = [''m_5_0'', ''m_5_0'']"
  "runIdRef rerun = Some ''m_5_0''"
  "progress rerun = 0"
  "statusLine rerun = []"
  "map trace (sessions rerun) = [Some []]"
  "map (map content \<circ> messages) (sessions rerun) = [[''waht is ai'', ''and ml'']]"
  "map trace (sessions (appendTrace ''m_5_0'' \<lparr>ev_type = TStatus, ev_data = StateData (Some ''old'')\<rparr>
      (rerun\<lparr>statusLine := ''old''\<rparr>))) = [Some [\<lparr>ev_type = TStatus, ev_data = StateData (Some ''old'')\<rparr>]]"
  by (simp_all add: rerun_def scene_defs op_defs text_defs)

lemma question_onChange [simp]: "question (onChange now v s) = v"
  by (simp add: onChange_def requestAutocorrect_def Let_def split: option.splits)

text \<open>
  C1, as the claim states it, fails: the listeners make no check of the run. The user
  sends a second question in the same session while the first run is thinking. The
  stream of the first run is closed and a new one is current; the stamp \<open>runIdRef\<close> is
  the session id, the same as before. A listener of the first stream, called now with a
  progress or a status event, sets the progress and the status line of the new run and
  appends to the trace of the new run's session.
\<close>

theorem stale_listener_counterexample:
  "esRef rerun = Some 1
   \<and> map st_open (streams rerun) = [False, True]
   \<and> map st_owner (streams rerun) = [''m_5_0'', ''m_5_0'']
   \<and> runIdRef running = Some ''m_5_0'' \<and> runIdRef rerun = Some ''m_5_0''
   \<and> progress rerun = 0 \<and> statusLine rerun = [] \<and> map trace (sessions rerun) = [Some []]
   \<and> on_event 8 ''m_5_0'' 0 (ProgressEvent (Some 50)) rerun = Inr (rerun\<lparr>progress := 50\<rparr>)
   \<and> on_event 8 ''m_5_0'' 0 (StatusEvent (Some ''old'')) rerun =
       Inr (appendTrace ''m_5_0'' \<lparr>ev_type = TStatus, ev_data = StateData (Some ''old'')\<rparr>
              (rerun\<lparr>statusLine := ''old''\<rparr>))
   \<and> map trace (sessions (appendTrace ''m_5_0'' \<lparr>ev_type = TStatus, ev_data = StateData (Some ''old'')\<rparr>
              (rerun\<lparr>statusLine := ''old''\<rparr>)))
       = [Some [\<lparr>ev_type = TStatus, ev_data = StateData (Some ''old'')\<rparr>]]"
proof -
  have a: "on_event 8 ''m_5_0'' 0 (ProgressEvent (Some 50)) rerun = Inr (rerun\<lparr>progress := 50\<rparr>)"
    by simp
  have b: "on_event 8 ''m_5_0'' 0 (StatusEvent (Some ''old'')) rerun =
       Inr (appendTrace ''m_5_0'' \<lparr>ev_type = TStatus, ev_data = StateData (Some ''old'')\<rparr>
              (rerun\<lparr>statusLine := ''old''\<rparr>))"
    by simp
  show ?thesis
    by (intro conjI rerun_facts running_facts a b)
qed

text \<open>
  C1, amended. In every state that a sequence of actions reaches from the initial state,
  at most one stream is open and at most one interval ticks, namely the ones the refs
  hold. When \<open>send\<close> is called there with a non-empty text, every stream opened before,
  the previous run's among them, is closed and every interval set before is cleared in
  the state in which the new stream is open and the new interval ticks. A closed stream
  dispatches nothing, so whatever happens afterwards, no event of an earlier stream
  reaches a listener: delivering one changes nothing. That is the only protection: the
  listeners themselves check nothing, and a listener that is called sets the plan, the
  progress or the status line and appends to the session whose id it captured.
\<close>

theorem new_run_closes_previous:
  "(let s = run as (init loaded)
    in one_open s \<and> one_ticking s
       \<and> (truthy (trim (question s)) \<longrightarrow>
           (let s' = send dnow pnow s
            in (\<forall>h < length (streams s). \<not> st_open (streams s' ! h))
               \<and> (\<forall>t < length (intervals s). \<not> intervals s' ! t)
               \<and> esRef s' = Some (length (streams s))
               \<and> st_open (streams s' ! length (streams s))
               \<and> timerRef s' = Some (length (intervals s))
               \<and> intervals s' ! length (intervals s)
               \<and> (\<forall>bs k d ev. k < length (streams s) \<longrightarrow>
                     deliver d k ev (run bs s') = run bs s'))))
   \<and> on_event d i h (PlanEvent it st) r =
       Inr (appendTrace i \<lparr>ev_type = TPlan, ev_data = PlanData it st\<rparr>
              (r\<lparr>plan := \<lparr>intent = it, steps = (case st of None \<Rightarrow> [] | Some l \<Rightarrow> l)\<rparr>\<rparr>))
   \<and> on_event d i h (ProgressEvent (Some p)) r = Inr (r\<lparr>progress := p\<rparr>)
   \<and> on_event d i h (StatusEvent sl) r =
       Inr (appendTrace i \<lparr>ev_type = TStatus, ev_data = StateData sl\<rparr>
              (r\<lparr>statusLine := (case sl of None \<Rightarrow> [] | Some t \<Rightarrow> t)\<rparr>))"
proof -
  define s where "s = run as (init loaded)"
  have inv: "one_open s \<and> one_ticking s"
    unfolding s_def by (rule run_invariant [OF init_invariant])
  have main: "(\<forall>h < length (streams s). \<not> st_open (streams (send dnow pnow s) ! h))
               \<and> (\<forall>t < length (intervals s). \<not> intervals (send dnow pnow s) ! t)
               \<and> esRef (send dnow pnow s) = Some (length (streams s))
               \<and> st_open (streams (send dnow pnow s) ! length (streams s))
               \<and> timerRef (send dnow pnow s) = Some (length (intervals s))
               \<and> intervals (send dnow pnow s) ! length (intervals s)
               \<and> (\<forall>bs k d ev. k < length (streams s) \<longrightarrow>
                     deliver d k ev (run bs (send dnow pnow s)) = run bs (send dnow pnow s))"
    if t: "truthy (trim (question s))"
  proof -
    from inv have o: "one_open s" and k: "one_ticking s" by simp_all
    note c = send_closes_previous [OF o k t, of dnow pnow]
    have "deliver d k ev (run bs (send dnow pnow s)) = run bs (send dnow pnow s)"
      if "k < length (streams s)" for bs k d ev
    proof -
      from c that have 1: "k < length (streams (send dnow pnow s))"
        and 2: "\<not> st_open (streams (send dnow pnow s) ! k)" by simp_all
      from run_stays_closed [of "send dnow pnow s" bs] 1 2
      have "\<not> st_open (streams (run bs (send dnow pnow s)) ! k)"
        by (simp add: stays_closed_def)
      then show ?thesis by (simp add: deliver_def)
    qed
    with c show ?thesis by blast
  qed
  from inv main show ?thesis
    unfolding Let_def s_def [symmetric] by simp
qed

theorem new_run_closes_previous_witness:
  "run [Type 0 ''waht is ai'', Send 5 0, Type 500 ''and ml''] (init []) = onChange 500 ''and ml'' running
   \<and> truthy (trim (question (onChange 500 ''and ml'' running)))
   \<and> esRef (onChange 500 ''and ml'' running) = Some 0
   \<and> st_open (streams (onChange 500 ''and ml'' running) ! 0)
   \<and> \<not> st_open (streams rerun ! 0)
   \<and> esRef rerun = Some 1
   \<and> st_open (streams rerun ! 1)
   \<and> deliver 8 0 (ProgressEvent (Some 50)) rerun = rerun"
proof -
  have e: "run [Type 0 ''waht is ai'', Send 5 0, Type 500 ''and ml''] (init []) = onChange 500 ''and ml'' running"
    by (simp add: run_def running_def asked_def)
  have q: "truthy (trim (question (onChange 500 ''and ml'' running)))"
    by (simp add: text_defs)
  have l: "length (streams (onChange 500 ''and ml'' running)) = 1"
    by (simp add: running_facts)
  have o: "esRef (onChange 500 ''and ml'' running) = Some 0
      \<and> st_open (streams (onChange 500 ''and ml'' running) ! 0)"
    by (simp add: running_facts)
  note th = new_run_closes_previous [where as = "[Type 0 ''waht is ai'', Send 5 0, Type 500 ''and ml'']"
      and loaded = "[]" and dnow = 7 and pnow = 0, unfolded Let_def e rerun_def [symmetric]]
  from th q have c: "\<forall>h < length (streams (onChange 500 ''and ml'' running)). \<not> st_open (streams rerun ! h)"
    and d: "esRef rerun = Some (length (streams (onChange 500 ''and ml'' running)))"
    and f: "st_open (streams rerun ! length (streams (onChange 500 ''and ml'' running)))"
    and g: "\<forall>bs k d ev. k < length (streams (onChange 500 ''and ml'' running)) \<longrightarrow>
                     deliver d k ev (run bs rerun) = run bs rerun"
    by blast+
  from c l have c': "\<not> st_open (streams rerun ! 0)" by simp
  from g l have "deliver 8 0 (ProgressEvent (Some 50)) (run [] rerun) = run [] rerun"
    by (metis zero_less_one)
  then have g': "deliver 8 0 (ProgressEvent (Some 50)) rerun = rerun"
    by (simp add: run_def)
  from e q o c' d f g' l show ?thesis by simp
qed

section \<open>Session ids\<close>

text \<open>
  The ids of the sessions stay non-empty: every id that \<open>uid\<close> makes is, and no action
  changes the id of a session. So in every state reached from a stored list whose ids are
  non-empty, and in every state reached from the empty application, all session ids are
  non-empty. The stored list itself is used as it was parsed, so nothing is known of
  its ids beyond what is assumed here.
\<close>

lemma uid_truthy: "truthy (fst (uid dnow c))"
  by (simp add: uid_def truthy_def)

lemma sids_appendTrace [simp]: "map sid (sessions (appendTrace i ev s)) = map sid (sessions s)"
  by (simp add: appendTrace_def comp_def if_distrib cong: if_cong)

lemma sids_ensureSession:
  assumes "ensureSession dnow q s = (i, s2)"
  shows "sid ` set (sessions s2) \<subseteq> insert (fst (uid dnow (uidCounter s))) (sid ` set (sessions s))"
  using assms
  by (auto simp add: ensureSession_def Let_def split: option.splits prod.splits)

lemma sids_send:
  "sid ` set (sessions (send dnow pnow s))
     \<subseteq> insert (fst (uid dnow (uidCounter s))) (sid ` set (sessions s))"
proof (cases "truthy (trim (question s))")
  case False
  then have "send dnow pnow s = s" by (simp add: send_def)
  then show ?thesis by auto
next
  case True
  define q where "q = (if autoCorrectOn s \<and> truthy (suggestion s) \<and> suggestion s \<noteq> trim (question s)
      then suggestion s else trim (question s))"
  define s1 where "s1 = s\<lparr>ac := (if autoCorrectOn s \<and> truthy (suggestion s) \<and> suggestion s \<noteq> trim (question s)
      then Some \<lparr>original = trim (question s), corrected = suggestion s\<rparr> else None), suggestion := []\<rparr>"
  define F where "F = (\<lambda>m (x::session). x\<lparr>title := (if length (messages x) \<noteq> 0 then title x else titleOf q),
                  messages := messages x @ [\<lparr>mid = m, role = User, content = q, citations = None\<rparr>],
                  trace := Some []\<rparr>)"
  obtain i s2 where es: "ensureSession dnow q s1 = (i, s2)"
    by (cases "ensureSession dnow q s1")
  obtain xs c where mw: "map_with_uid dnow F i (uidCounter s2) (sessions s2) = (xs, c)"
    by (cases "map_with_uid dnow F i (uidCounter s2) (sessions s2)")
  have "sessions (send dnow pnow s) = xs"
    using True es mw
    unfolding send_def Let_def q_def [symmetric] s1_def [symmetric] F_def [symmetric] by simp
  moreover have "map sid xs = map sid (sessions s2)"
    using map_with_uid_shape [of F dnow i "uidCounter s2" "sessions s2"] mw
    by (simp add: F_def)
  then have "sid ` set xs = sid ` set (sessions s2)"
    by (metis list.set_map)
  moreover have "sid ` set (sessions s2) \<subseteq> insert (fst (uid dnow (uidCounter s))) (sid ` set (sessions s))"
    using sids_ensureSession [OF es] by (simp add: s1_def)
  ultimately show ?thesis by simp
qed

lemma sids_on_event:
  assumes "on_event dnow i h ev s = Inr s'"
  shows "map sid (sessions s') = map sid (sessions s)"
proof (cases ev)
  case (FinalEvent answer cits)
  obtain xs c where mw: "map_with_uid dnow
      (\<lambda>m x. x\<lparr>messages := messages x @ [\<lparr>mid = m, role = Assistant, content = answer, citations = cits\<rparr>]\<rparr>)
      i (uidCounter s) (sessions s) = (xs, c)"
    by (cases "map_with_uid dnow
      (\<lambda>m x. x\<lparr>messages := messages x @ [\<lparr>mid = m, role = Assistant, content = answer, citations = cits\<rparr>]\<rparr>)
      i (uidCounter s) (sessions s)")
  have "map sid xs = map sid (sessions s)"
    using map_with_uid_shape [of "\<lambda>m x. x\<lparr>messages := messages x @ [\<lparr>mid = m, role = Assistant, content = answer, citations = cits\<rparr>]\<rparr>"
        dnow i "uidCounter s" "sessions s"] mw
    by simp
  with assms FinalEvent mw show ?thesis by (auto simp add: Let_def)
qed (use assms in \<open>auto simp add: Let_def split: option.splits\<close>)

lemma map_sid_keep: "(\<And>x. sid (f x) = sid x) \<Longrightarrow> map sid (map f xs) = map sid xs"
  by (induction xs) auto

lemma sids_quiet:
  "map sid (sessions (onChange now v s)) = map sid (sessions s)"
  "map sid (sessions (stopRun s)) = map sid (sessions s)"
  "map sid (sessions (newChat s)) = map sid (sessions s)"
  "map sid (sessions (renameSession i name s)) = map sid (sessions s)"
  "map sid (sessions (setMode m s)) = map sid (sessions s)"
  "map sid (sessions (tick t pnow s)) = map sid (sessions s)"
  "map sid (sessions (fire_debounce h s)) = map sid (sessions s)"
  "map sid (sessions (fetch_done k res s)) = map sid (sessions s)"
  "map sid (sessions (reset_fire s)) = map sid (sessions s)"
  by (simp_all add: onChange_def requestAutocorrect_def stopRun_def newChat_def
      renameSession_def setMode_def tick_def fire_debounce_def fetch_done_def reset_fire_def
      Let_def close_es_keeps map_sid_keep
      split: option.splits fetch_result.splits)

lemma sids_step:
  "\<exists>j. truthy j \<and> sid ` set (sessions (step a s)) \<subseteq> insert j (sid ` set (sessions s))"
proof -
  have same: "map sid (sessions (step a s)) = map sid (sessions s) \<Longrightarrow> ?thesis"
  proof -
    assume "map sid (sessions (step a s)) = map sid (sessions s)"
    then have "sid ` set (sessions (step a s)) = sid ` set (sessions s)"
      by (metis list.set_map)
    moreover have "truthy ''m''" by (simp add: truthy_def)
    ultimately show ?thesis by blast
  qed
  show ?thesis
  proof (cases a)
    case (Send dnow pnow)
    with sids_send [of dnow pnow s] uid_truthy [of dnow "uidCounter s"] show ?thesis
      by auto
  next
    case (StreamEvent dnow h ev)
    show ?thesis
    proof (cases "on_event dnow (st_owner (streams s ! h)) h ev s")
      case (Inl e)
      with StreamEvent show ?thesis by (intro same) (simp add: deliver_def)
    next
      case (Inr s')
      with StreamEvent sids_on_event [OF Inr] show ?thesis
        by (intro same) (simp add: deliver_def)
    qed
  next
    case (Delete i)
    have "sid ` set (sessions (deleteSession i s)) \<subseteq> sid ` set (sessions s)"
      by (auto simp add: deleteSession_def)
    moreover have "truthy ''m''" by (simp add: truthy_def)
    ultimately show ?thesis using Delete by auto
  next
    case (KeyDown key)
    then show ?thesis by (intro same) (simp add: onKey_def sids_quiet)
  next
    case ClickStop
    then show ?thesis by (intro same) (simp add: clickStop_def sids_quiet)
  next
    case UseOriginal
    then show ?thesis by (intro same) (simp split: option.splits)
  qed (intro same, simp add: sids_quiet)+
qed

lemma step_ids:
  assumes "\<forall>x \<in> set (sessions s). truthy (sid x)"
  shows "\<forall>x \<in> set (sessions (step a s)). truthy (sid x)"
proof
  fix x assume "x \<in> set (sessions (step a s))"
  then have "sid x \<in> sid ` set (sessions (step a s))" by simp
  with sids_step [of a s] obtain j where "truthy j"
    and "sid x \<in> insert j (sid ` set (sessions s))" by blast
  with assms show "truthy (sid x)" by auto
qed

lemma run_ids:
  "\<forall>x \<in> set (sessions s). truthy (sid x) \<Longrightarrow> \<forall>x \<in> set (sessions (run as s)). truthy (sid x)"
  unfolding run_def
proof (induction as arbitrary: s)
  case Nil
  then show ?case by simp
next
  case (Cons a as)
  from Cons.IH [OF step_ids [OF Cons.prems]] show ?case by simp
qed

lemma reachable_ids:
  "\<forall>x \<in> set loaded. truthy (sid x) \<Longrightarrow>
     \<forall>x \<in> set (sessions (run as (init loaded))). truthy (sid x)"
  by (rule run_ids) (simp add: init_def)

section \<open>A burst of long texts\<close>

text \<open>
  With autocorrect on and no timeout pending at the start, a burst of changes whose texts
  all have at least three characters, each less than 300ms after the one before, followed
  by a pause of 300ms, issues exactly one request, for the final text.
\<close>

lemma fold_fixed: "(\<And>x. x \<in> set xs \<Longrightarrow> f x s = s) \<Longrightarrow> fold f xs s = s"
  by (induction xs) auto

lemma fire_debounce_idle: "\<not> db_pending (timeouts s ! h) \<Longrightarrow> fire_debounce h s = s"
  by (simp add: fire_debounce_def)

lemma run_timers_none:
  assumes "\<forall>h < length (timeouts s). db_pending (timeouts s ! h) \<longrightarrow> now < db_due (timeouts s ! h)"
  shows "run_timers now s = s"
  unfolding run_timers_def
proof (rule fold_fixed)
  fix h assume "h \<in> set [0 ..< length (timeouts s)]"
  then have "h < length (timeouts s)" by simp
  with assms have "db_due (timeouts s ! h) \<le> now \<longrightarrow> \<not> db_pending (timeouts s ! h)"
    by auto
  then show "(if h < length (timeouts s) \<and> db_due (timeouts s ! h) \<le> now
              then fire_debounce h s else s) = s"
    by (auto simp add: fire_debounce_idle)
qed

lemma run_timers_armed_early:
  assumes "armed t v s" "now < t + 300"
  shows "run_timers now s = s"
proof (rule run_timers_none, intro allI impI)
  fix h assume h: "h < length (timeouts s)" and p: "db_pending (timeouts s ! h)"
  from assms(1) h p have "h = length (timeouts s) - 1"
    by (cases "h < length (timeouts s) - 1") (auto simp add: armed_def)
  with assms(1) have "timeouts s ! h = \<lparr>db_text = trim v, db_due = t + 300, db_pending = True\<rparr>"
    by (simp add: armed_def)
  with assms(2) show "now < db_due (timeouts s ! h)" by simp
qed

lemma run_timers_armed_late:
  assumes "armed t v s" "t + 300 \<le> now"
  shows "requests (run_timers now s) = requests s @ [\<lparr>rq_text = trim v, rq_inflight = True\<rparr>]"
proof -
  let ?n = "length (timeouts s) - 1"
  let ?f = "\<lambda>h a. if h < length (timeouts a) \<and> db_due (timeouts a ! h) \<le> now
                   then fire_debounce h a else a"
  from assms(1) have ne: "timeouts s \<noteq> []" and
    l: "timeouts s ! ?n = \<lparr>db_text = trim v, db_due = t + 300, db_pending = True\<rparr>"
    and e: "\<forall>h < ?n. \<not> db_pending (timeouts s ! h)"
    by (simp_all add: armed_def)
  from ne have n: "length (timeouts s) = Suc ?n" by simp
  have "fold ?f [0 ..< ?n] s = s"
  proof (rule fold_fixed)
    fix h assume "h \<in> set [0 ..< ?n]"
    with e have "\<not> db_pending (timeouts s ! h)" by simp
    then show "?f h s = s" by (simp add: fire_debounce_idle)
  qed
  then have "run_timers now s = ?f ?n s"
    unfolding run_timers_def by (subst n) simp
  also have "\<dots> = fire_debounce ?n s"
    using n l assms(2) by simp
  finally show ?thesis
    using n l by (simp add: fire_debounce_def)
qed

lemma type_at_arms:
  assumes "autoCorrectOn s" "length (trim v) \<ge> 3"
    and "run_timers t s = s"
    and "\<forall>h < length (timeouts s). db_pending (timeouts s ! h) \<longrightarrow> suggestTimerRef s = Some h"
  shows "armed t v (type_at t v s) \<and> requests (type_at t v s) = requests s"
  using assms
  by (auto simp add: type_at_def onChange_def requestAutocorrect_def armed_def Let_def
      nth_append nth_list_update split: option.splits)

lemma armed_one_pending:
  assumes "armed t v s"
  shows "\<forall>h < length (timeouts s). db_pending (timeouts s ! h) \<longrightarrow> suggestTimerRef s = Some h"
proof (intro allI impI)
  fix h assume h: "h < length (timeouts s)" and p: "db_pending (timeouts s ! h)"
  from assms h p have "h = length (timeouts s) - 1"
    by (cases "h < length (timeouts s) - 1") (auto simp add: armed_def)
  with assms show "suggestTimerRef s = Some h" by (simp add: armed_def)
qed

lemma burst_armed:
  assumes "armed t v s" "quick t es"
  shows "\<exists>t' v'. (t', v') = last ((t, v) # es) \<and> armed t' v' (burst es s)
           \<and> requests (burst es s) = requests s"
  using assms
proof (induction es arbitrary: t v s)
  case Nil
  then show ?case by simp
next
  case (Cons e es)
  obtain t' v' where e: "e = (t', v')" by (cases e)
  from Cons.prems(2) e have q: "t \<le> t'" "t' < t + 300" "length (trim v') \<ge> 3" "quick t' es"
    by simp_all
  from Cons.prems(1) have on: "autoCorrectOn s" by (simp add: armed_def)
  note r = run_timers_armed_early [OF Cons.prems(1) q(2)]
  from type_at_arms [OF on q(3) r armed_one_pending [OF Cons.prems(1)]]
  have a: "armed t' v' (type_at t' v' s)" and rq: "requests (type_at t' v' s) = requests s"
    by simp_all
  from Cons.IH [OF a q(4)] rq e show ?case by simp
qed

lemma burst_single_request:
  assumes "autoCorrectOn s"
    and "\<forall>h < length (timeouts s). \<not> db_pending (timeouts s ! h)"
    and "length (trim v) \<ge> 3" and "quick t es"
    and "(t', v') = last ((t, v) # es)" and "t' + 300 \<le> now"
  shows "requests (run_timers now (burst ((t, v) # es) s))
           = requests s @ [\<lparr>rq_text = trim v', rq_inflight = True\<rparr>]"
proof -
  have r: "run_timers t s = s"
    using assms(2) by (intro run_timers_none) simp
  from type_at_arms [OF assms(1,3) r] assms(2)
  have a: "armed t v (type_at t v s)" and rq: "requests (type_at t v s) = requests s"
    by simp_all
  from burst_armed [OF a assms(4)] assms(5)
  have "armed t' v' (burst es (type_at t v s))"
    and "requests (burst es (type_at t v s)) = requests (type_at t v s)"
    by (metis prod.inject)+
  with run_timers_armed_late [OF _ assms(6), of v' "burst es (type_at t v s)"] rq
  show ?thesis by simp
qed

lemma burst_single_request_example:
  "requests (run_timers 400 (burst [(0, ''waht''), (100, ''waht is'')] (init [])))
     = [\<lparr>rq_text = ''waht is'', rq_inflight = True\<rparr>]"
proof -
  have a: "autoCorrectOn (init [])" by (simp add: init_def)
  have b: "\<forall>h < length (timeouts (init [])). \<not> db_pending (timeouts (init []) ! h)"
    by (simp add: init_def)
  have c: "length (trim ''waht'') \<ge> 3" by (simp add: text_defs)
  have d: "quick 0 [(100, ''waht is'')]" by (simp add: text_defs)
  have e: "(100, ''waht is'') = last [(0 :: nat, ''waht''), (100, ''waht is'')]" by simp
  have f: "trim ''waht is'' = ''waht is''" by (simp add: text_defs)
  have g: "requests (init []) = []" by (simp add: init_def)
  from burst_single_request [OF a b c d e, of 400] show ?thesis
    by (simp add: f g)
qed

end
